theory Spec2Isabelle
  imports Main "HOL-Library.AList" "HOL-Library.Sublist"
begin

section \<open>The Stackl inventory plugin of \<open>ansible_handler.py\<close>\<close>

text \<open>
  The development embeds the functions of the inventory plugin that the handler ships as
  the text \<open>stackl_plugin\<close>: \<open>check_groups\<close>, \<open>create_groups\<close>, the three secret readers
  and the loop body of \<open>InventoryModule.parse\<close>.

  Hosts, tags, service names, targets and dictionary keys are only compared for equality;
  they are \<open>string\<close>s. A Python \<open>dict\<close> is an association list in insertion order with
  distinct keys: \<open>map_of\<close> reads it and \<open>AList.update\<close> writes it (an existing key keeps
  its position, a new key goes to the end), as Python does.
\<close>

subsection \<open>Exceptions\<close>

datatype exn =
    SystemExit int
  | IndexError
  | TypeError
  | AttributeError
  | KeyError
  | ValueError
  | BinasciiError
  | UnicodeDecodeError
  | UnicodeEncodeError
  | UnboundLocalError
  | AnsibleParserError string
  | IOError string
  | AnsibleError exn

subsection \<open>Group rules and group entries\<close>

text \<open>
  One element of \<open>stackl_inventory_groups\<close> is a dictionary with the keys \<open>tags\<close> and
  \<open>count\<close>; the source iterates \<open>item["tags"]\<close> in order and uses \<open>item["count"]\<close> as a
  Python integer. One element of a group list is the dictionary
  \<open>{"host": ..., "target": ...}\<close>.
\<close>

record group_rule =
  tags :: "string list"
  count :: int

record entry =
  host :: string
  target :: string

type_synonym groups = "(string \<times> entry list) list"

subsection \<open>\<open>check_groups\<close>\<close>

text \<open>\<open>count_group_dict[tag] += c\<close> on a \<open>defaultdict(int)\<close>.\<close>

definition dd_add :: "string \<Rightarrow> int \<Rightarrow> (string \<times> int) list \<Rightarrow> (string \<times> int) list" where
  "dd_add tag c d = AList.update tag ((case map_of d tag of None \<Rightarrow> 0 | Some v \<Rightarrow> v) + c) d"

text \<open>The inner loop \<open>for tag in group['tags']\<close> and the outer loop over the rules.\<close>

fun count_tags :: "string list \<Rightarrow> int \<Rightarrow> (string \<times> int) list \<Rightarrow> (string \<times> int) list" where
  "count_tags [] c d = d"
| "count_tags (tag # ts) c d = count_tags ts c (dd_add tag c d)"

fun count_group_dict :: "group_rule list \<Rightarrow> (string \<times> int) list \<Rightarrow> (string \<times> int) list" where
  "count_group_dict [] d = d"
| "count_group_dict (grp # gs) d = count_group_dict gs (count_tags (tags grp) (count grp) d)"

text \<open>
  The second loop, over \<open>count_group_dict.items()\<close>, with its early \<open>return False\<close>.
  \<open>stackl_groups[tag]\<close> is only read when \<open>tag in stackl_groups\<close> holds.
\<close>

fun check_counts :: "(string \<times> int) list \<Rightarrow> groups \<Rightarrow> int \<Rightarrow> bool" where
  "check_counts [] stackl_groups target_count = True"
| "check_counts ((tag, c) # rest) stackl_groups target_count =
     (case map_of stackl_groups tag of
        None \<Rightarrow> False
      | Some es \<Rightarrow>
          if \<not> (int (length es) = c * target_count) then False
          else check_counts rest stackl_groups target_count)"

definition check_groups :: "groups \<Rightarrow> group_rule list \<Rightarrow> string list \<Rightarrow> bool" where
  "check_groups stackl_groups stackl_inventory_groups host_list =
     (let target_count = int (length host_list)
      in check_counts (count_group_dict stackl_inventory_groups []) stackl_groups target_count)"

subsection \<open>\<open>create_groups\<close>\<close>

text \<open>\<open>groups[tag].append(host)\<close> on a \<open>defaultdict(list)\<close>.\<close>

definition dd_append :: "string \<Rightarrow> entry \<Rightarrow> groups \<Rightarrow> groups" where
  "dd_append tag e g = AList.update tag ((case map_of g tag of None \<Rightarrow> [] | Some es \<Rightarrow> es) @ [e]) g"

text \<open>
  The loop \<open>for index in range(item["count"])\<close> for one tag, over the indices still to
  visit. \<open>hosts[index]\<close> with a non-negative index raises \<open>IndexError\<close> exactly when
  \<open>index \<ge> len(hosts)\<close>; the handler prints it and calls \<open>exit(1)\<close>.
\<close>

fun index_loop :: "string list \<Rightarrow> string \<Rightarrow> string \<Rightarrow> nat list \<Rightarrow> groups \<Rightarrow> exn + groups" where
  "index_loop hosts infrastructure_target tag [] g = Inr g"
| "index_loop hosts infrastructure_target tag (index # rest) g =
     (if index < length hosts
      then index_loop hosts infrastructure_target tag rest
             (dd_append tag \<lparr>host = hosts ! index, target = infrastructure_target\<rparr> g)
      else Inl (SystemExit 1))"

text \<open>\<open>range(c)\<close>: empty for \<open>c \<le> 0\<close>.\<close>

definition py_range :: "int \<Rightarrow> nat list" where
  "py_range c = [0 ..< nat c]"

fun tag_loop :: "string list \<Rightarrow> string \<Rightarrow> int \<Rightarrow> string list \<Rightarrow> groups \<Rightarrow> exn + groups" where
  "tag_loop hosts infrastructure_target c [] g = Inr g"
| "tag_loop hosts infrastructure_target c (tag # ts) g =
     (case index_loop hosts infrastructure_target tag (py_range c) g of
        Inl e \<Rightarrow> Inl e
      | Inr g' \<Rightarrow> tag_loop hosts infrastructure_target c ts g')"

text \<open>
  \<open>del hosts[0:c]\<close>: the slice stops at \<open>c\<close> clipped to the length, and a negative \<open>c\<close>
  counts from the end.
\<close>

definition del_prefix :: "string list \<Rightarrow> int \<Rightarrow> string list" where
  "del_prefix hosts c =
     (if 0 \<le> c then drop (nat c) hosts else drop (nat (int (length hosts) + c)) hosts)"

text \<open>
  The loop over the rules. The caller's list \<open>hosts\<close> is mutated, so the function returns
  it next to the groups.
\<close>

fun item_loop :: "string list \<Rightarrow> group_rule list \<Rightarrow> string \<Rightarrow> groups \<Rightarrow> exn + (groups \<times> string list)" where
  "item_loop hosts [] infrastructure_target g = Inr (g, hosts)"
| "item_loop hosts (item # rest) infrastructure_target g =
     (case tag_loop hosts infrastructure_target (count item) (tags item) g of
        Inl e \<Rightarrow> Inl e
      | Inr g' \<Rightarrow> item_loop (del_prefix hosts (count item)) rest infrastructure_target g')"

definition create_groups :: "string list \<Rightarrow> group_rule list \<Rightarrow> string \<Rightarrow> exn + (groups \<times> string list)" where
  "create_groups hosts stackl_inventory_groups infrastructure_target =
     item_loop hosts stackl_inventory_groups infrastructure_target []"

subsection \<open>Vocabulary for the properties of the group functions\<close>

text \<open>\<open>groups.get(tag, [])\<close>: the entries of a tag, none when the tag is missing.\<close>

definition entries_of :: "groups \<Rightarrow> string \<Rightarrow> entry list" where
  "entries_of g tag = (case map_of g tag of None \<Rightarrow> [] | Some es \<Rightarrow> es)"

definition mk_entry :: "string \<Rightarrow> string \<Rightarrow> entry" where
  "mk_entry infrastructure_target h = \<lparr>host = h, target = infrastructure_target\<rparr>"

text \<open>One tag after the other receives the same host list \<open>hs\<close>.\<close>

definition add_tags :: "string \<Rightarrow> string list \<Rightarrow> string list \<Rightarrow> groups \<Rightarrow> groups" where
  "add_tags t hs ts g = fold (\<lambda>tag. fold (dd_append tag) (map (mk_entry t) hs)) ts g"

text \<open>
  The slice of the pool that belongs to each rule: the first \<open>count\<close> hosts of what the
  rules before it have left.
\<close>

fun slices :: "string list \<Rightarrow> group_rule list \<Rightarrow> (group_rule \<times> string list) list" where
  "slices hosts [] = []"
| "slices hosts (r # rs) = (r, take (nat (count r)) hosts) # slices (drop (nat (count r)) hosts) rs"

text \<open>
  The entries a tag receives from one rule and its slice (the whole slice, once for every
  occurrence of the tag in the rule), and from all rules in order.
\<close>

definition assigned_in :: "string \<Rightarrow> string \<Rightarrow> group_rule \<times> string list \<Rightarrow> entry list" where
  "assigned_in infrastructure_target tag p =
     concat (map (\<lambda>t. if t = tag then map (mk_entry infrastructure_target) (snd p) else []) (tags (fst p)))"

definition assigned :: "string list \<Rightarrow> group_rule list \<Rightarrow> string \<Rightarrow> string \<Rightarrow> entry list" where
  "assigned hosts rules infrastructure_target tag =
     concat (map (assigned_in infrastructure_target tag) (slices hosts rules))"

text \<open>
  The number of hosts the specification expects \<open>partition\<close> to consume:
  the sum over the rules of \<open>rule.count\<close> times the number of tags of the rule.
\<close>

definition spec_consumed :: "group_rule list \<Rightarrow> int" where
  "spec_consumed rules = sum_list (map (\<lambda>r. count r * int (length (tags r))) rules)"

text \<open>
  \<open>isValid\<close> in the specification's words: false exactly when some tag of some rule is
  missing from the current assignment or has a number of entries different from
  \<open>rule.count \<times> totalHostCount\<close>.
\<close>

definition isValid_spec :: "groups \<Rightarrow> group_rule list \<Rightarrow> nat \<Rightarrow> bool" where
  "isValid_spec current rules totalHostCount =
     (\<not> list_ex (\<lambda>rule. list_ex (\<lambda>tag.
          case map_of current tag of
            None \<Rightarrow> True
          | Some es \<Rightarrow> int (length es) \<noteq> count rule * int totalHostCount) (tags rule)) rules)"

text \<open>
  What \<open>check_groups\<close> accumulates for a tag: the counts of all rules that name the tag,
  once for every occurrence of the tag.
\<close>

definition tag_total :: "group_rule list \<Rightarrow> string \<Rightarrow> int" where
  "tag_total rules tag = sum_list (map (\<lambda>r. count r * int (count_list (tags r) tag)) rules)"

definition counted :: "(string \<times> int) list \<Rightarrow> string \<Rightarrow> int" where
  "counted d tag = (case map_of d tag of None \<Rightarrow> 0 | Some v \<Rightarrow> v)"

section \<open>Python strings and bytes\<close>

text \<open>
  The secret readers work on the text of the secrets: a Python \<open>str\<close> is a list of code
  points and a \<open>bytes\<close> object a list of numbers below 256. \<open>lit\<close> turns an ASCII
  literal of the source into its code points.
\<close>

type_synonym pystr = "nat list"
type_synonym bytes = "nat list"

definition lit :: "string \<Rightarrow> pystr" where
  "lit s = map of_char s"

text \<open>
  \<open>str.lower()\<close>. The source only compares the result with the ASCII words \<open>"true"\<close> and
  \<open>"false"\<close>; no code point outside ASCII has a lower-case form that contains one of
  their letters, so the model maps \<open>A\<close> to \<open>Z\<close> and leaves every other code point.
\<close>

definition lower_cp :: "nat \<Rightarrow> nat" where
  "lower_cp c = (if 65 \<le> c \<and> c \<le> 90 then c + 32 else c)"

definition py_lower :: "pystr \<Rightarrow> pystr" where
  "py_lower s = map lower_cp s"

text \<open>The code points that \<open>str.strip()\<close> and \<open>str.rstrip()\<close> remove (\<open>str.isspace\<close>).\<close>

definition is_space :: "nat \<Rightarrow> bool" where
  "is_space c \<longleftrightarrow>
     (9 \<le> c \<and> c \<le> 13) \<or> (28 \<le> c \<and> c \<le> 32) \<or> c = 133 \<or> c = 160 \<or> c = 5760 \<or>
     (8192 \<le> c \<and> c \<le> 8202) \<or> c = 8232 \<or> c = 8233 \<or> c = 8239 \<or> c = 8287 \<or> c = 12288"

definition py_rstrip :: "pystr \<Rightarrow> pystr" where
  "py_rstrip s = rev (dropWhile is_space (rev s))"

definition py_strip :: "pystr \<Rightarrow> pystr" where
  "py_strip s = py_rstrip (dropWhile is_space s)"

text \<open>\<open>str.find(sep)\<close>: the index of the first occurrence of \<open>sep\<close>, if there is one.\<close>

fun find_sub :: "pystr \<Rightarrow> pystr \<Rightarrow> nat option" where
  "find_sub sep [] = (if sep = [] then Some 0 else None)"
| "find_sub sep (c # cs) =
     (if prefix sep (c # cs) then Some 0 else map_option Suc (find_sub sep cs))"

text \<open>
  \<open>str.split(sep)\<close> for a separator that is not empty: the pieces between the occurrences
  of \<open>sep\<close>, found from the left and not overlapping. With an empty separator Python raises
  \<open>ValueError\<close>.
\<close>

function split_at :: "pystr \<Rightarrow> pystr \<Rightarrow> pystr list" where
  "split_at sep s =
     (if sep = [] then [s]
      else case find_sub sep s of
             None \<Rightarrow> [s]
           | Some i \<Rightarrow> take i s # split_at sep (drop (i + length sep) s))"
  by pat_completeness auto
termination
proof (relation "measure (\<lambda>(sep, s). length s)")
  show "wf (measure (\<lambda>(sep, s). length s))" by simp
next
  fix sep s :: pystr and i
  assume "sep \<noteq> []" and "find_sub sep s = Some i"
  then have "s \<noteq> []" by (cases s) auto
  with \<open>sep \<noteq> []\<close> show "((sep, drop (i + length sep) s), (sep, s)) \<in> measure (\<lambda>(sep, s). length s)"
    by simp
qed

definition py_split :: "pystr \<Rightarrow> pystr \<Rightarrow> exn + pystr list" where
  "py_split sep s = (if sep = [] then Inl ValueError else Inr (split_at sep s))"

text \<open>\<open>xs[1]\<close> on a list.\<close>

definition second :: "'a list \<Rightarrow> exn + 'a" where
  "second xs = (if 1 < length xs then Inr (xs ! 1) else Inl IndexError)"

section \<open>Base64 and UTF-8 as the Python library computes them\<close>

text \<open>
  \<open>base64.b64encode\<close>, \<open>base64.b64decode\<close> and the \<open>utf-8\<close> codec belong to the Python
  library, not to the handler; the definitions below follow CPython's \<open>binascii\<close> module
  and the definition of UTF-8. Bytes are numbers below 256 and the casts to
  \<open>unsigned char\<close> are written as \<open>mod 256\<close>.
\<close>

subsection \<open>Encoding\<close>

text \<open>The base64 alphabet: position to character, and character to position.\<close>

definition b64_char :: "nat \<Rightarrow> nat" where
  "b64_char n =
     (if n < 26 then 65 + n
      else if n < 52 then 97 + (n - 26)
      else if n < 62 then 48 + (n - 52)
      else if n = 62 then 43
      else 47)"

definition b64_val :: "nat \<Rightarrow> nat option" where
  "b64_val c =
     (if 65 \<le> c \<and> c \<le> 90 then Some (c - 65)
      else if 97 \<le> c \<and> c \<le> 122 then Some (c - 97 + 26)
      else if 48 \<le> c \<and> c \<le> 57 then Some (c - 48 + 52)
      else if c = 43 then Some 62
      else if c = 47 then Some 63
      else None)"

text \<open>\<open>base64.b64encode\<close>: three bytes give four characters; the last group is padded with \<open>=\<close>.\<close>

fun b64encode :: "bytes \<Rightarrow> pystr" where
  "b64encode [] = []"
| "b64encode [a] = [b64_char (a div 4), b64_char ((a mod 4) * 16), 61, 61]"
| "b64encode [a, b] =
     [b64_char (a div 4), b64_char ((a mod 4) * 16 + b div 16), b64_char ((b mod 16) * 4), 61]"
| "b64encode (a # b # c # rest) =
     [b64_char (a div 4), b64_char ((a mod 4) * 16 + b div 16),
      b64_char ((b mod 16) * 4 + c div 64), b64_char (c mod 64)] @ b64encode rest"

subsection \<open>Decoding without validation\<close>

text \<open>
  \<open>binascii.a2b_base64\<close> in its default, non-strict mode, one character at a time.
  \<open>quad_pos\<close> is the position in the current group of four, \<open>leftchar\<close> holds the bits not
  yet written and \<open>pads\<close> counts the \<open>=\<close> seen since the last data character. Characters
  outside the alphabet are skipped. A \<open>=\<close> ends the input once the group is complete with
  the pads; before that it is skipped. Input that ends inside a group is an error
  (\<open>binascii.Error\<close>).
\<close>

fun a2b_loop :: "pystr \<Rightarrow> nat \<Rightarrow> nat \<Rightarrow> nat \<Rightarrow> exn + bytes" where
  "a2b_loop [] quad_pos leftchar pads = (if quad_pos \<noteq> 0 then Inl BinasciiError else Inr [])"
| "a2b_loop (this_ch # rest) quad_pos leftchar pads =
     (if this_ch = 61 then
        (if quad_pos \<ge> 2 \<and> quad_pos + (pads + 1) \<ge> 4 then Inr []
         else a2b_loop rest quad_pos leftchar (pads + 1))
      else case b64_val this_ch of
        None \<Rightarrow> a2b_loop rest quad_pos leftchar pads
      | Some v \<Rightarrow>
          if quad_pos = 0 then a2b_loop rest 1 v 0
          else if quad_pos = 1 then
            map_sum id ((#) ((leftchar * 4 + v div 16) mod 256)) (a2b_loop rest 2 (v mod 16) 0)
          else if quad_pos = 2 then
            map_sum id ((#) ((leftchar * 16 + v div 4) mod 256)) (a2b_loop rest 3 (v mod 4) 0)
          else
            map_sum id ((#) ((leftchar * 64 + v) mod 256)) (a2b_loop rest 0 0 0))"

definition a2b_base64 :: "pystr \<Rightarrow> exn + bytes" where
  "a2b_base64 s = a2b_loop s 0 0 0"

text \<open>
  \<open>base64.b64decode\<close> of a \<open>str\<close>: the text is first encoded as ASCII, and a code point
  above 127 is a \<open>ValueError\<close>.
\<close>

definition b64decode :: "pystr \<Rightarrow> exn + bytes" where
  "b64decode s = (if list_all (\<lambda>c. c < 128) s then a2b_base64 s else Inl ValueError)"

subsection \<open>UTF-8\<close>

text \<open>
  \<open>str.encode("utf-8")\<close> for one code point. Python raises for the surrogates
  \<open>D800\<close> to \<open>DFFF\<close>; code points end at \<open>10FFFF\<close>.
\<close>

definition is_scalar :: "nat \<Rightarrow> bool" where
  "is_scalar c \<longleftrightarrow> c < 55296 \<or> (57344 \<le> c \<and> c < 1114112)"

definition utf8_encode_cp :: "nat \<Rightarrow> bytes" where
  "utf8_encode_cp c =
     (if c < 128 then [c]
      else if c < 2048 then [192 + c div 64, 128 + c mod 64]
      else if c < 65536 then [224 + c div 4096, 128 + (c div 64) mod 64, 128 + c mod 64]
      else [240 + c div 262144, 128 + (c div 4096) mod 64, 128 + (c div 64) mod 64, 128 + c mod 64])"

definition utf8_encode :: "pystr \<Rightarrow> exn + bytes" where
  "utf8_encode s = (if list_all is_scalar s then Inr (concat (map utf8_encode_cp s)) else Inl UnicodeEncodeError)"

text \<open>
  \<open>bytes.decode("utf-8")\<close>, strict: a continuation byte lies in \<open>80\<close> to \<open>BF\<close>; over-long
  forms, surrogates and values above \<open>10FFFF\<close> are rejected through the range of the first
  continuation byte.
\<close>

definition is_cont :: "nat \<Rightarrow> bool" where
  "is_cont b \<longleftrightarrow> 128 \<le> b \<and> b \<le> 191"

fun utf8_decode :: "bytes \<Rightarrow> exn + pystr" where
  "utf8_decode [] = Inr []"
| "utf8_decode (b0 # bs) =
     (if b0 < 128 then map_sum id ((#) b0) (utf8_decode bs)
      else if 194 \<le> b0 \<and> b0 \<le> 223 then
        (case bs of
           b1 # r \<Rightarrow>
             if is_cont b1
             then map_sum id ((#) ((b0 - 192) * 64 + (b1 - 128))) (utf8_decode r)
             else Inl UnicodeDecodeError
         | _ \<Rightarrow> Inl UnicodeDecodeError)
      else if 224 \<le> b0 \<and> b0 \<le> 239 then
        (case bs of
           b1 # b2 # r \<Rightarrow>
             if is_cont b1 \<and> is_cont b2 \<and> (b0 = 224 \<longrightarrow> 160 \<le> b1) \<and> (b0 = 237 \<longrightarrow> b1 \<le> 159)
             then map_sum id ((#) ((b0 - 224) * 4096 + (b1 - 128) * 64 + (b2 - 128))) (utf8_decode r)
             else Inl UnicodeDecodeError
         | _ \<Rightarrow> Inl UnicodeDecodeError)
      else if 240 \<le> b0 \<and> b0 \<le> 244 then
        (case bs of
           b1 # b2 # b3 # r \<Rightarrow>
             if is_cont b1 \<and> is_cont b2 \<and> is_cont b3 \<and> (b0 = 240 \<longrightarrow> 144 \<le> b1) \<and> (b0 = 244 \<longrightarrow> b1 \<le> 143)
             then map_sum id ((#) ((b0 - 240) * 262144 + (b1 - 128) * 4096 + (b2 - 128) * 64 + (b3 - 128)))
                    (utf8_decode r)
             else Inl UnicodeDecodeError
         | _ \<Rightarrow> Inl UnicodeDecodeError)
      else Inl UnicodeDecodeError)"

section \<open>The secret readers\<close>

subsection \<open>Service definitions and the world outside\<close>

text \<open>
  An attribute of a service definition may be missing (\<open>hasattr\<close> is false), hold \<open>None\<close>,
  or hold a value.
\<close>

datatype 'a attr = NoAttr | PyNone | Val 'a

text \<open>
  The value of a provisioning parameter: a list of rules, as under
  \<open>stackl_inventory_groups\<close>, or a string. The plugin hands the values on to the
  inventory and reads only the one under \<open>stackl_inventory_groups\<close>.
\<close>

datatype pval = Rules "group_rule list" | Other pystr

record service_definition =
  hosts :: "string list attr"
  provisioning_parameters :: "(string \<times> pval) list"
  secrets :: "(string \<times> pystr) list attr"
  infrastructure_target :: string

text \<open>
  The value of the option \<open>conjur_verify\<close>: a string, a boolean, or something else
  (\<open>None\<close>, a number).
\<close>

datatype pyval = PyStr pystr | PyBool bool | PyNothing | PyInt int

record request =
  url :: pystr
  authorization :: pystr
  verify :: pyval

record response =
  status_code :: nat
  resp_text :: pystr

text \<open>
  The stack instance that the API returns, and the update that \<open>parse\<close> sends back:
  \<open>StackInstanceUpdate(stack_instance_name, params={"stackl_groups": ...},
  disable_invocation=True)\<close>.
\<close>

record stack_instance =
  name :: string
  groups :: groups
  services :: "(string \<times> service_definition list) list"

record stack_update =
  stack_instance_name :: string
  stackl_groups :: groups
  disable_invocation :: bool

text \<open>
  What the plugin reaches outside the program, as functions the context supplies:
  \<^item> \<open>open_readline path\<close>: \<open>open(path, "r").readline()\<close>;
  \<^item> \<open>vault_read address token path\<close>: \<open>hvac.Client(url, token).read(path)\<close>, reduced to
    the dictionary at \<open>['data']['data']\<close>; \<open>None\<close> when the client returns \<open>None\<close>;
  \<^item> \<open>load_token path\<close>: the bytes of \<open>json.dumps(json.load(open(path)))\<close>;
  \<^item> \<open>http_get\<close>: \<open>requests.get\<close>, which returns a response for every status code and
    raises only when no response arrives;
  \<^item> \<open>put_stack_instance update stored\<close>: the call of the API; it raises, or the server
    turns the stored instance into a new one. What the server does with an update is not
    part of the handler and stays a parameter.
\<close>

record env =
  open_readline :: "pystr \<Rightarrow> exn + pystr"
  vault_read :: "pystr \<Rightarrow> pystr \<Rightarrow> pystr \<Rightarrow> exn + (string \<times> pystr) list option"
  load_token :: "pystr \<Rightarrow> exn + bytes"
  http_get :: "request \<Rightarrow> exn + response"
  put_stack_instance :: "stack_update \<Rightarrow> stack_instance \<Rightarrow> exn + stack_instance"

text \<open>\<open>service.secrets.items()\<close>: \<open>AttributeError\<close> on a missing attribute and on \<open>None\<close>.\<close>

definition secret_items :: "service_definition \<Rightarrow> exn + (string \<times> pystr) list" where
  "secret_items service =
     (case secrets service of Val d \<Rightarrow> Inr d | _ \<Rightarrow> Inl AttributeError)"

subsection \<open>\<open>get_base64_secrets\<close>\<close>

text \<open>
  The expression under \<open>try\<close>:
  \<open>base64.b64decode(secret + "===").decode("utf-8").rstrip()\<close>.
\<close>

definition decode_secret :: "pystr \<Rightarrow> exn + pystr" where
  "decode_secret secret =
     (case b64decode (secret @ lit ''==='') of
        Inl e \<Rightarrow> Inl e
      | Inr bs \<Rightarrow> (case utf8_decode bs of Inl e \<Rightarrow> Inl e | Inr s \<Rightarrow> Inr (py_rstrip s)))"

fun base64_loop :: "(string \<times> pystr) list \<Rightarrow> (string \<times> pystr) list \<Rightarrow> exn + (string \<times> pystr) list" where
  "base64_loop [] decoded_secrets = Inr decoded_secrets"
| "base64_loop ((key, secret) # rest) decoded_secrets =
     (case decode_secret secret of
        Inl e \<Rightarrow> Inl (AnsibleParserError ''Could not decode secret'')
      | Inr v \<Rightarrow> base64_loop rest (AList.update key v decoded_secrets))"

definition get_base64_secrets :: "service_definition \<Rightarrow> exn + (string \<times> pystr) list" where
  "get_base64_secrets service =
     (case secret_items service of Inl e \<Rightarrow> Inl e | Inr items \<Rightarrow> base64_loop items [])"

subsection \<open>\<open>get_vault_secrets\<close>\<close>

text \<open>The inner loop \<open>secret_dict[key] = value\<close> over the pairs of one secret.\<close>

fun store_all :: "(string \<times> pystr) list \<Rightarrow> (string \<times> pystr) list \<Rightarrow> (string \<times> pystr) list" where
  "store_all [] secret_dict = secret_dict"
| "store_all ((key, v) # rest) secret_dict = store_all rest (AList.update key v secret_dict)"

text \<open>\<open>secret_value['data']\<close> on \<open>None\<close> is a \<open>TypeError\<close>.\<close>

fun vault_loop :: "env \<Rightarrow> pystr \<Rightarrow> pystr \<Rightarrow> (string \<times> pystr) list \<Rightarrow> (string \<times> pystr) list \<Rightarrow>
    exn + (string \<times> pystr) list" where
  "vault_loop w address token [] secret_dict = Inr secret_dict"
| "vault_loop w address token ((k, v) # rest) secret_dict =
     (case vault_read w address token v of
        Inl e \<Rightarrow> Inl e
      | Inr None \<Rightarrow> Inl TypeError
      | Inr (Some secret_value) \<Rightarrow> vault_loop w address token rest (store_all secret_value secret_dict))"

definition get_vault_secrets :: "env \<Rightarrow> service_definition \<Rightarrow> pystr \<Rightarrow> pystr \<Rightarrow> exn + (string \<times> pystr) list" where
  "get_vault_secrets w service address token_path =
     (case open_readline w token_path of
        Inl e \<Rightarrow> Inl e
      | Inr token \<Rightarrow>
          (case secret_items service of
             Inl e \<Rightarrow> Inl e
           | Inr items \<Rightarrow> vault_loop w address token items []))"

subsection \<open>\<open>get_conjur_secrets\<close>\<close>

text \<open>Lines 142 to 145: the two string forms of the flag become booleans.\<close>

definition normalize_verify :: "pyval \<Rightarrow> pyval" where
  "normalize_verify v =
     (case v of
        PyStr s \<Rightarrow>
          if py_lower s = lit ''false'' then PyBool False
          else if py_lower s = lit ''true'' then PyBool True
          else v
      | _ \<Rightarrow> v)"

text \<open>\<open>secret_path.split("!var")[1].strip()\<close>.\<close>

definition conjur_path :: "pystr \<Rightarrow> exn + pystr" where
  "conjur_path secret_path =
     (case py_split (lit ''!var'') secret_path of
        Inl e \<Rightarrow> Inl e
      | Inr parts \<Rightarrow> (case second parts of Inl e \<Rightarrow> Inl e | Inr p \<Rightarrow> Inr (py_strip p)))"

text \<open>
  The request of lines 152 to 158; 34 is the double quote around the encoded token, and
  \<open>resp_text\<close> is the attribute \<open>text\<close> of the response.
\<close>

definition conjur_request :: "pystr \<Rightarrow> pystr \<Rightarrow> bytes \<Rightarrow> pyval \<Rightarrow> pystr \<Rightarrow> request" where
  "conjur_request address account token v path =
     \<lparr>url = address @ lit ''/secrets/'' @ account @ lit ''/variable/'' @ path,
      authorization = lit ''Token token='' @ [34] @ b64encode token @ [34],
      verify = v\<rparr>"

fun conjur_loop :: "env \<Rightarrow> pystr \<Rightarrow> pystr \<Rightarrow> bytes \<Rightarrow> pyval \<Rightarrow> (string \<times> pystr) list \<Rightarrow>
    (string \<times> pystr) list \<Rightarrow> exn + (string \<times> pystr) list" where
  "conjur_loop w address account token v [] conjur_secrets = Inr conjur_secrets"
| "conjur_loop w address account token v ((key, secret_path) # rest) conjur_secrets =
     (case conjur_path secret_path of
        Inl e \<Rightarrow> Inl e
      | Inr path \<Rightarrow>
          (case http_get w (conjur_request address account token v path) of
             Inl e \<Rightarrow> Inl e
           | Inr r \<Rightarrow>
               conjur_loop w address account token v rest (AList.update key (resp_text r) conjur_secrets)))"

definition get_conjur_secrets :: "env \<Rightarrow> service_definition \<Rightarrow> pystr \<Rightarrow> pystr \<Rightarrow> pystr \<Rightarrow> pyval \<Rightarrow>
    exn + (string \<times> pystr) list" where
  "get_conjur_secrets w service address account token_path verify0 =
     (case load_token w token_path of
        Inl e \<Rightarrow> Inl e
      | Inr token \<Rightarrow>
          (case secret_items service of
             Inl e \<Rightarrow> Inl e
           | Inr items \<Rightarrow>
               conjur_loop w address account token (normalize_verify verify0) items []))"

subsection \<open>Vocabulary for the properties of the secret readers\<close>

text \<open>
  Comparison of a text with a lower-case ASCII word without regard to case: the same
  length, and every code point is the letter of the word or its upper-case form.
\<close>

definition ci_equal :: "pystr \<Rightarrow> string \<Rightarrow> bool" where
  "ci_equal s word = list_all2 (\<lambda>c l. c = l \<or> c + 32 = l) s (lit word)"

text \<open>
  Two worlds for examples. In \<open>open_world\<close> every file can be read, Vault knows no path,
  every request is answered with status 200 and the server stores the groups of an update.
  \<open>strict_world\<close> differs in that a request is only answered when it does not ask for the
  certificate check.
\<close>

definition open_world :: env where
  "open_world =
     \<lparr>open_readline = (\<lambda>path. Inr (lit ''s.token'')),
      vault_read = (\<lambda>address token path. Inr None),
      load_token = (\<lambda>path. Inr (lit ''{}'')),
      http_get = (\<lambda>req. Inr \<lparr>status_code = 200, resp_text = lit ''s3cret''\<rparr>),
      put_stack_instance = (\<lambda>update stored. Inr (stored\<lparr>groups := stackl_groups update\<rparr>))\<rparr>"

definition strict_world :: env where
  "strict_world =
     open_world\<lparr>http_get := (\<lambda>req.
        if verify req = PyBool False then Inr \<lparr>status_code = 200, resp_text = lit ''s3cret''\<rparr>
        else Inl (IOError ''certificate verify failed''))\<rparr>"

text \<open>A world in which Conjur answers every request with status 404.\<close>

definition missing_world :: env where
  "missing_world =
     open_world\<lparr>http_get := (\<lambda>req. Inr \<lparr>status_code = 404, resp_text = lit ''Not Found''\<rparr>)\<rparr>"

text \<open>A service definition with the given secrets and nothing else.\<close>

definition service_with :: "(string \<times> pystr) list \<Rightarrow> service_definition" where
  "service_with items =
     \<lparr>hosts = PyNone, provisioning_parameters = [], secrets = Val items,
      infrastructure_target = ''t1''\<rparr>"

text \<open>
  \<open>rstrip("=")\<close>, which takes the padding off an encoded text, and the encoding without
  its padding.
\<close>

definition strip_padding :: "pystr \<Rightarrow> pystr" where
  "strip_padding s = rev (dropWhile (\<lambda>c. c = 61) (rev s))"

fun b64_nopad :: "bytes \<Rightarrow> pystr" where
  "b64_nopad [] = []"
| "b64_nopad [a] = [b64_char (a div 4), b64_char ((a mod 4) * 16)]"
| "b64_nopad [a, b] =
     [b64_char (a div 4), b64_char ((a mod 4) * 16 + b div 16), b64_char ((b mod 16) * 4)]"
| "b64_nopad (a # b # c # rest) =
     [b64_char (a div 4), b64_char ((a mod 4) * 16 + b div 16),
      b64_char ((b mod 16) * 4 + c div 64), b64_char (c mod 64)] @ b64_nopad rest"

text \<open>The printable ASCII characters, the space among them.\<close>

definition printable_ascii :: "nat \<Rightarrow> bool" where
  "printable_ascii c \<longleftrightarrow> 32 \<le> c \<and> c < 127"

text \<open>
  What the specification expects of the Conjur reader for one reference: the variable path
  after \<open>!var\<close>, one request for it that carries the flag \<open>flag\<close>, and the body of the
  response as the value. \<open>collect_values\<close> gathers the values of a batch in order and stops
  at the first exception.
\<close>

definition conjur_value :: "env \<Rightarrow> pystr \<Rightarrow> pystr \<Rightarrow> bytes \<Rightarrow> pyval \<Rightarrow> pystr \<Rightarrow> exn + pystr" where
  "conjur_value w address account token flag secret_path =
     (case conjur_path secret_path of
        Inl e \<Rightarrow> Inl e
      | Inr path \<Rightarrow>
          (case http_get w
                  \<lparr>url = address @ lit ''/secrets/'' @ account @ lit ''/variable/'' @ path,
                   authorization = lit ''Token token='' @ [34] @ b64encode token @ [34],
                   verify = flag\<rparr> of
             Inl e \<Rightarrow> Inl e
           | Inr r \<Rightarrow> Inr (resp_text r)))"

fun collect_values :: "(string \<times> (exn + pystr)) list \<Rightarrow> (string \<times> pystr) list \<Rightarrow> exn + (string \<times> pystr) list" where
  "collect_values [] d = Inr d"
| "collect_values ((key, Inl e) # rest) d = Inl e"
| "collect_values ((key, Inr v) # rest) d = collect_values rest (AList.update key v d)"

section \<open>The loop of \<open>InventoryModule.parse\<close>\<close>

text \<open>
  The options of the plugin that the loop reads with \<open>get_option\<close>.
\<close>

record options =
  secret_handler :: string
  vault_addr :: pystr
  vault_token_path :: pystr
  conjur_addr :: pystr
  conjur_account :: pystr
  conjur_token_path :: pystr
  conjur_verify :: pyval

text \<open>
  The calls on the inventory, in the order in which they are made. A variable holds a
  provisioning parameter, a resolved secret or the infrastructure target.
\<close>

datatype inv_value = ParamValue pval | SecretValue pystr | TargetValue string

datatype inv_call =
    AddGroup string
  | AddHost string string
  | SetVariable string string inv_value

text \<open>
  The state of one pass: the instance as the server stores it, the object \<open>stack_instance\<close>
  that \<open>parse\<close> has fetched and changes in place (\<open>fetched\<close>), the updates sent, and the calls made on
  the inventory. A step returns the state and the exception it raised, if any.
\<close>

record pass_state =
  remote :: stack_instance
  fetched :: stack_instance
  puts :: "stack_update list"
  inventory :: "inv_call list"

text \<open>\<open>str(index)\<close> for the index of \<open>enumerate\<close>.\<close>

function str_nat :: "nat \<Rightarrow> string" where
  "str_nat n =
     (if n < 10 then [''0123456789'' ! n] else str_nat (n div 10) @ [''0123456789'' ! (n mod 10)])"
  by pat_completeness auto
termination
  by (relation "measure id") auto

declare str_nat.simps [simp del]

text \<open>A loop of \<open>set_variable(group, key, value)\<close> over the items of a dictionary.\<close>

definition set_variables :: "string \<Rightarrow> (string \<times> 'v) list \<Rightarrow> ('v \<Rightarrow> inv_value) \<Rightarrow> inv_call list" where
  "set_variables grp kvs f = map (\<lambda>(k, v). SetVariable grp k (f v)) kvs"

text \<open>
  The chain of \<open>if\<close> and \<open>elif\<close> on the option \<open>secret_handler\<close>. With any other handler
  \<open>secrets\<close> is never assigned, and \<open>secrets.items()\<close> raises \<open>UnboundLocalError\<close>.
\<close>

definition resolve_secrets :: "env \<Rightarrow> options \<Rightarrow> service_definition \<Rightarrow> exn + (string \<times> pystr) list" where
  "resolve_secrets w opts sd =
     (if secret_handler opts = ''vault'' then
        get_vault_secrets w sd (vault_addr opts) (vault_token_path opts)
      else if secret_handler opts = ''base64'' then get_base64_secrets sd
      else if secret_handler opts = ''conjur'' then
        get_conjur_secrets w sd (conjur_addr opts) (conjur_account opts) (conjur_token_path opts)
          (conjur_verify opts)
      else Inl UnboundLocalError)"

text \<open>\<open>if hasattr(service_definition, "secrets"): ...\<close> with the loop over the secrets.\<close>

definition attach_secrets :: "env \<Rightarrow> options \<Rightarrow> service_definition \<Rightarrow> string \<Rightarrow> pass_state \<Rightarrow>
    pass_state \<times> exn option" where
  "attach_secrets w opts sd grp st =
     (if secrets sd = NoAttr then (st, None)
      else case resolve_secrets w opts sd of
             Inl e \<Rightarrow> (st, Some e)
           | Inr d \<Rightarrow> (st\<lparr>inventory := inventory st @ set_variables grp d SecretValue\<rparr>, None))"

subsection \<open>Services with inventory groups\<close>

text \<open>Lines 221 to 250: the hosts of one group, each followed by the variables.\<close>

fun publish_entries :: "env \<Rightarrow> options \<Rightarrow> service_definition \<Rightarrow> string \<Rightarrow> entry list \<Rightarrow> pass_state \<Rightarrow>
    pass_state \<times> exn option" where
  "publish_entries w opts sd item [] st = (st, None)"
| "publish_entries w opts sd item (e # es) st =
     (case attach_secrets w opts sd item
             (st\<lparr>inventory := inventory st @ [AddHost (host e) item] @
                  set_variables item (provisioning_parameters sd) ParamValue\<rparr>) of
        (st', Some x) \<Rightarrow> (st', Some x)
      | (st', None) \<Rightarrow> publish_entries w opts sd item es st')"

text \<open>Lines 219 and 220: the loop over \<open>stack_instance.groups.items()\<close>.\<close>

fun publish_groups :: "env \<Rightarrow> options \<Rightarrow> service_definition \<Rightarrow> groups \<Rightarrow> pass_state \<Rightarrow>
    pass_state \<times> exn option" where
  "publish_groups w opts sd [] st = (st, None)"
| "publish_groups w opts sd ((item, es) # rest) st =
     (case publish_entries w opts sd item es (st\<lparr>inventory := inventory st @ [AddGroup item]\<rparr>) of
        (st', Some x) \<Rightarrow> (st', Some x)
      | (st', None) \<Rightarrow> publish_groups w opts sd rest st')"

text \<open>
  Lines 202 to 250. When \<open>check_groups\<close> rejects the groups of the fetched instance,
  \<open>create_groups\<close> replaces them (and shortens the host list of the service definition) and
  the update is sent; then the groups are published. The shortened host list is not read
  again during the pass; the model hands it on with the service definition and leaves the
  copy inside \<open>fetched\<close> as it was.
\<close>

definition grouped_step :: "env \<Rightarrow> options \<Rightarrow> service_definition \<Rightarrow> group_rule list \<Rightarrow> string list \<Rightarrow>
    pass_state \<Rightarrow> pass_state \<times> exn option" where
  "grouped_step w opts sd rules hs st =
     (if \<not> check_groups (groups (fetched st)) rules hs then
        (case create_groups hs rules (infrastructure_target sd) of
           Inl e \<Rightarrow> (st, Some e)
         | Inr (g, rest) \<Rightarrow>
             (let st1 = st\<lparr>fetched := (fetched st)\<lparr>groups := g\<rparr>\<rparr>;
                  stack_update = \<lparr>stack_instance_name = name (fetched st), stackl_groups = g,
                                  disable_invocation = True\<rparr>
              in case put_stack_instance w stack_update (remote st1) of
                   Inl e \<Rightarrow> (st1, Some e)
                 | Inr r \<Rightarrow>
                     publish_groups w opts (sd\<lparr>hosts := Val rest\<rparr>) g
                       (st1\<lparr>remote := r, puts := puts st1 @ [stack_update]\<rparr>)))
      else publish_groups w opts sd (groups (fetched st)) st)"

subsection \<open>Services without inventory groups\<close>

text \<open>
  Lines 253 to 259: \<open>if service_definition.hosts\<close> holds for a list that is not empty;
  otherwise one host named after the service and the index is added.
\<close>

definition plain_hosts :: "string \<Rightarrow> nat \<Rightarrow> service_definition \<Rightarrow> inv_call list" where
  "plain_hosts service index sd =
     (case hosts sd of
        Val (h # hs) \<Rightarrow> map (\<lambda>h. AddHost h service) (h # hs)
      | _ \<Rightarrow> [AddHost (service @ ''_'' @ str_nat index) service])"

text \<open>Lines 252 to 284. Reading \<open>service_definition.hosts\<close> raises when the attribute is missing.\<close>

definition plain_step :: "env \<Rightarrow> options \<Rightarrow> string \<Rightarrow> nat \<Rightarrow> service_definition \<Rightarrow> pass_state \<Rightarrow>
    pass_state \<times> exn option" where
  "plain_step w opts service index sd st =
     (let st1 = st\<lparr>inventory := inventory st @ [AddGroup service]\<rparr>
      in if hosts sd = NoAttr then (st1, Some AttributeError)
         else attach_secrets w opts sd service
                (st1\<lparr>inventory := inventory st1 @ plain_hosts service index sd @
                     [SetVariable service ''infrastructure_target''
                        (TargetValue (infrastructure_target sd))] @
                     set_variables service (provisioning_parameters sd) ParamValue\<rparr>))"

subsection \<open>The loops over the services\<close>

text \<open>
  Lines 199 to 201 choose the branch. In the first branch \<open>check_groups\<close> takes
  \<open>len(host_list)\<close>, a \<open>TypeError\<close> for \<open>None\<close>, and then iterates over the parameter:
  a string gives its characters, and \<open>group['tags']\<close> on a character is a \<open>TypeError\<close>;
  the empty string gives no rule at all. The groups of the fetched instance are a
  dictionary.
\<close>

definition service_step :: "env \<Rightarrow> options \<Rightarrow> string \<Rightarrow> nat \<Rightarrow> service_definition \<Rightarrow> pass_state \<Rightarrow>
    pass_state \<times> exn option" where
  "service_step w opts service index sd st =
     (if hosts sd \<noteq> NoAttr \<and> map_of (provisioning_parameters sd) ''stackl_inventory_groups'' \<noteq> None
      then (case (map_of (provisioning_parameters sd) ''stackl_inventory_groups'', hosts sd) of
              (Some (Rules rules), Val hs) \<Rightarrow> grouped_step w opts sd rules hs st
            | (Some (Other s), Val hs) \<Rightarrow>
                if s = [] then grouped_step w opts sd [] hs st else (st, Some TypeError)
            | _ \<Rightarrow> (st, Some TypeError))
      else plain_step w opts service index sd st)"

fun definitions_loop :: "env \<Rightarrow> options \<Rightarrow> string \<Rightarrow> nat \<Rightarrow> service_definition list \<Rightarrow> pass_state \<Rightarrow>
    pass_state \<times> exn option" where
  "definitions_loop w opts service index [] st = (st, None)"
| "definitions_loop w opts service index (sd # rest) st =
     (case service_step w opts service index sd st of
        (st', Some x) \<Rightarrow> (st', Some x)
      | (st', None) \<Rightarrow> definitions_loop w opts service (Suc index) rest st')"

fun services_loop :: "env \<Rightarrow> options \<Rightarrow> (string \<times> service_definition list) list \<Rightarrow> pass_state \<Rightarrow>
    pass_state \<times> exn option" where
  "services_loop w opts [] st = (st, None)"
| "services_loop w opts ((service, si_service) # rest) st =
     (case definitions_loop w opts service 0 si_service st of
        (st', Some x) \<Rightarrow> (st', Some x)
      | (st', None) \<Rightarrow> services_loop w opts rest st')"

text \<open>
  \<open>parse\<close> from the fetched instance on. \<open>except Exception\<close> wraps every exception in an
  \<open>AnsibleError\<close>; \<open>SystemExit\<close> is not an \<open>Exception\<close> and passes.
\<close>

definition wrap :: "exn \<Rightarrow> exn" where
  "wrap e = (case e of SystemExit c \<Rightarrow> SystemExit c | _ \<Rightarrow> AnsibleError e)"

definition parse :: "env \<Rightarrow> options \<Rightarrow> stack_instance \<Rightarrow> pass_state \<times> exn option" where
  "parse w opts stored =
     (case services_loop w opts (services stored)
             \<lparr>remote = stored, fetched = stored, puts = [], inventory = []\<rparr> of
        (st, x) \<Rightarrow> (st, map_option wrap x))"

subsection \<open>Vocabulary for the properties of the pass\<close>

text \<open>
  A service definition needs no new groups: it has no inventory groups, or
  \<open>check_groups\<close> accepts the groups \<open>g\<close> for its rules and hosts.
\<close>

definition already_valid :: "groups \<Rightarrow> service_definition \<Rightarrow> bool" where
  "already_valid g sd =
     (case (map_of (provisioning_parameters sd) ''stackl_inventory_groups'', hosts sd) of
        (Some (Rules rules), Val hs) \<Rightarrow> check_groups g rules hs
      | _ \<Rightarrow> True)"

definition instance_valid :: "stack_instance \<Rightarrow> bool" where
  "instance_valid stored =
     list_all (\<lambda>(service, si_service). list_all (already_valid (groups stored)) si_service)
       (services stored)"

text \<open>A step has sent no update and has left the stored and the fetched instance alone.\<close>

definition unwritten :: "pass_state \<Rightarrow> pass_state \<Rightarrow> bool" where
  "unwritten st st' \<longleftrightarrow> remote st' = remote st \<and> fetched st' = fetched st \<and> puts st' = puts st"

text \<open>
  What the specification expects a service without inventory groups to publish: its group,
  its declared hosts or else one host named after the service and the index, and as
  variables of the group the infrastructure target, the provisioning parameters and the
  resolved secrets.
\<close>

definition declared_hosts :: "service_definition \<Rightarrow> string list" where
  "declared_hosts sd = (case hosts sd of Val hs \<Rightarrow> hs | _ \<Rightarrow> [])"

definition plain_publication :: "string \<Rightarrow> nat \<Rightarrow> service_definition \<Rightarrow> (string \<times> pystr) list \<Rightarrow> inv_call list" where
  "plain_publication service index sd resolved =
     [AddGroup service] @
     (if declared_hosts sd = [] then [AddHost (service @ ''_'' @ str_nat index) service]
      else map (\<lambda>h. AddHost h service) (declared_hosts sd)) @
     [SetVariable service ''infrastructure_target'' (TargetValue (infrastructure_target sd))] @
     map (\<lambda>(k, v). SetVariable service k (ParamValue v)) (provisioning_parameters sd) @
     map (\<lambda>(k, v). SetVariable service k (SecretValue v)) resolved"

text \<open>Options and instances for examples.\<close>

definition base64_options :: options where
  "base64_options =
     \<lparr>secret_handler = ''base64'', vault_addr = [], vault_token_path = [], conjur_addr = [],
      conjur_account = [], conjur_token_path = [], conjur_verify = PyBool True\<rparr>"

definition web_service :: service_definition where
  "web_service =
     \<lparr>hosts = Val [''h1''],
      provisioning_parameters = [(''stackl_inventory_groups'', Rules [\<lparr>tags = [''web''], count = 1\<rparr>])],
      secrets = NoAttr, infrastructure_target = ''t1''\<rparr>"

definition web_instance :: stack_instance where
  "web_instance =
     \<lparr>name = ''demo'', groups = [(''web'', [\<lparr>host = ''h1'', target = ''t1''\<rparr>])],
      services = [(''web'', [web_service])]\<rparr>"

definition plain_service :: service_definition where
  "plain_service =
     \<lparr>hosts = PyNone, provisioning_parameters = [(''port'', Other (lit ''80''))],
      secrets = Val [(''pw'', lit ''cGFzcw'')], infrastructure_target = ''t1''\<rparr>"

section \<open>Properties of \<open>create_groups\<close> and \<open>check_groups\<close>\<close>

subsection \<open>The loops of \<open>create_groups\<close> in closed form\<close>

lemma map_of_dd_append:
  "map_of (dd_append tag e g) = (map_of g)(tag \<mapsto> entries_of g tag @ [e])"
  by (simp add: dd_append_def entries_of_def update_conv')

lemma entries_of_dd_append:
  "entries_of (dd_append tag e g) tag' = (if tag' = tag then entries_of g tag @ [e] else entries_of g tag')"
  by (simp add: entries_of_def map_of_dd_append)

lemma map_of_fold_dd_append:
  "map_of (fold (dd_append tag) es g) =
     (if es = [] then map_of g else (map_of g)(tag \<mapsto> entries_of g tag @ es))"
proof (induction es arbitrary: g)
  case Nil
  show ?case by simp
next
  case (Cons e es)
  show ?case
    by (auto simp: Cons.IH map_of_dd_append entries_of_dd_append fun_eq_iff)
qed

lemma index_loop_fold:
  "index_loop pool t tag ixs g =
     (if \<forall>i\<in>set ixs. i < length pool
      then Inr (fold (dd_append tag) (map (\<lambda>i. mk_entry t (pool ! i)) ixs) g)
      else Inl (SystemExit 1))"
  by (induction ixs arbitrary: g) (auto simp: mk_entry_def)

lemma map_nth_upt_take: "n \<le> length xs \<Longrightarrow> map (\<lambda>i. f (xs ! i)) [0..<n] = map f (take n xs)"
  by (simp add: list_eq_iff_nth_eq)

lemma index_loop_range:
  "index_loop pool t tag (py_range c) g =
     (if nat c \<le> length pool
      then Inr (fold (dd_append tag) (map (mk_entry t) (take (nat c) pool)) g)
      else Inl (SystemExit 1))"
proof (cases "nat c \<le> length pool")
  case True
  then show ?thesis
    by (simp add: index_loop_fold py_range_def map_nth_upt_take)
next
  case False
  then have "\<not> (\<forall>i\<in>set [0..<nat c]. i < length pool)"
    by (auto intro: bexI [of _ "length pool"])
  with False show ?thesis
    by (simp add: index_loop_fold py_range_def)
qed

lemma tag_loop_fold:
  "tag_loop pool t c ts g =
     (if ts = [] \<or> nat c \<le> length pool
      then Inr (add_tags t (take (nat c) pool) ts g)
      else Inl (SystemExit 1))"
  by (induction ts arbitrary: g) (simp_all add: index_loop_range add_tags_def)

lemma map_of_add_tags:
  "map_of (add_tags t hs ts g) tag =
     (let es = concat (map (\<lambda>x. if x = tag then map (mk_entry t) hs else []) ts)
      in if es = [] then map_of g tag else Some (entries_of g tag @ es))"
proof (induction ts arbitrary: g)
  case Nil
  show ?case by (simp add: add_tags_def)
next
  case (Cons x ts)
  have step: "add_tags t hs (x # ts) g = add_tags t hs ts (fold (dd_append x) (map (mk_entry t) hs) g)"
    by (simp add: add_tags_def)
  show ?case
    unfolding step Cons.IH
    by (auto simp: map_of_fold_dd_append entries_of_def Let_def)
qed

lemma entries_of_add_tags:
  "entries_of (add_tags t hs ts g) tag =
     entries_of g tag @ concat (map (\<lambda>x. if x = tag then map (mk_entry t) hs else []) ts)"
  by (simp add: entries_of_def [of "add_tags t hs ts g"] map_of_add_tags Let_def)
     (simp add: entries_of_def)

lemma del_prefix_nonneg: "0 \<le> c \<Longrightarrow> del_prefix pool c = drop (nat c) pool"
  by (simp add: del_prefix_def)

lemma item_loop_rest:
  "\<forall>r\<in>set rules. 0 \<le> count r \<Longrightarrow> item_loop pool rules t g = Inr (g', rest) \<Longrightarrow>
     rest = drop (nat (sum_list (map count rules))) pool"
proof (induction rules arbitrary: pool g)
  case Nil
  then show ?case by simp
next
  case (Cons r rules)
  from Cons.prems obtain g1 where
    g1: "tag_loop pool t (count r) (tags r) g = Inr g1"
    and rec: "item_loop (drop (nat (count r)) pool) rules t g1 = Inr (g', rest)"
    by (auto simp: del_prefix_nonneg split: sum.splits)
  from Cons.prems have nn: "\<forall>r\<in>set rules. 0 \<le> count r" and r0: "0 \<le> count r" by simp_all
  have "sum_list (map count rules) \<ge> 0" using nn by (auto intro!: sum_list_nonneg)
  with Cons.IH [OF nn rec] r0 show ?case
    by (simp add: nat_add_distrib add.commute)
qed

lemma item_loop_enough:
  "\<forall>r\<in>set rules. 0 \<le> count r \<and> tags r \<noteq> [] \<Longrightarrow> item_loop pool rules t g = Inr (g', rest) \<Longrightarrow>
     sum_list (map count rules) \<le> int (length pool)"
proof (induction rules arbitrary: pool g)
  case Nil
  then show ?case by simp
next
  case (Cons r rules)
  from Cons.prems have r0: "0 \<le> count r" and rt: "tags r \<noteq> []"
    and nn: "\<forall>r\<in>set rules. 0 \<le> count r \<and> tags r \<noteq> []" by simp_all
  from Cons.prems r0 obtain g1 where
    g1: "tag_loop pool t (count r) (tags r) g = Inr g1"
    and rec: "item_loop (drop (nat (count r)) pool) rules t g1 = Inr (g', rest)"
    by (auto simp: del_prefix_nonneg split: sum.splits)
  from g1 rt have "nat (count r) \<le> length pool"
    by (simp add: tag_loop_fold split: if_splits)
  with Cons.IH [OF nn rec] r0 show ?case by simp
qed

lemma item_loop_entries:
  "\<forall>r\<in>set rules. 0 \<le> count r \<Longrightarrow> item_loop pool rules t g = Inr (g', rest) \<Longrightarrow>
     map_of g' tag =
       (if assigned pool rules t tag = [] then map_of g tag
        else Some (entries_of g tag @ assigned pool rules t tag))"
proof (induction rules arbitrary: pool g)
  case Nil
  then show ?case by (simp add: assigned_def)
next
  case (Cons r rules)
  from Cons.prems have r0: "0 \<le> count r" and nn: "\<forall>r\<in>set rules. 0 \<le> count r" by simp_all
  from Cons.prems r0 obtain g1 where
    g1: "tag_loop pool t (count r) (tags r) g = Inr g1"
    and rec: "item_loop (drop (nat (count r)) pool) rules t g1 = Inr (g', rest)"
    by (auto simp: del_prefix_nonneg split: sum.splits)
  from g1 have g1_eq: "g1 = add_tags t (take (nat (count r)) pool) (tags r) g"
    by (simp add: tag_loop_fold split: if_splits)
  have unfold: "assigned pool (r # rules) t tag =
      concat (map (\<lambda>x. if x = tag then map (mk_entry t) (take (nat (count r)) pool) else []) (tags r))
      @ assigned (drop (nat (count r)) pool) rules t tag"
    by (simp add: assigned_def assigned_in_def cong: if_cong)
  show ?case
    unfolding Cons.IH [OF nn rec] unfold g1_eq
    by (simp add: entries_of_add_tags map_of_add_tags Let_def)
qed

lemma slices_subset:
  "set (concat (map snd (slices pool rules))) \<subseteq> set pool"
proof (induction rules arbitrary: pool)
  case Nil
  show ?case by simp
next
  case (Cons r rules)
  have "set (take (nat (count r)) pool) \<subseteq> set pool"
    by (rule set_take_subset)
  moreover have "set (concat (map snd (slices (drop (nat (count r)) pool) rules))) \<subseteq> set pool"
    using Cons.IH [of "drop (nat (count r)) pool"] set_drop_subset [of "nat (count r)" pool]
    by blast
  ultimately show ?case by simp
qed

lemma slices_distinct:
  "distinct pool \<Longrightarrow> distinct (concat (map snd (slices pool rules)))"
proof (induction rules arbitrary: pool)
  case Nil
  show ?case by simp
next
  case (Cons r rules)
  let ?n = "nat (count r)"
  have d: "distinct (drop ?n pool)" using Cons.prems by simp
  have disj: "set (take ?n pool) \<inter> set (drop ?n pool) = {}"
    using Cons.prems by (metis append_take_drop_id distinct_append)
  have sub: "set (concat (map snd (slices (drop ?n pool) rules))) \<subseteq> set (drop ?n pool)"
    by (rule slices_subset)
  from Cons.IH [OF d] disj sub Cons.prems show ?case
    by (simp add: disjoint_iff subset_iff) blast
qed

lemma item_loop_append:
  "item_loop pool (pre @ post) t g =
     (case item_loop pool pre t g of Inl e \<Rightarrow> Inl e | Inr (g', rest) \<Rightarrow> item_loop rest post t g')"
  by (induction pre arbitrary: pool g) (simp_all split: sum.splits)

subsection \<open>The dictionary that \<open>check_groups\<close> accumulates\<close>

lemma map_of_dd_add: "map_of (dd_add tag c d) = (map_of d)(tag \<mapsto> counted d tag + c)"
  by (simp add: dd_add_def counted_def update_conv')

lemma distinct_dd_add: "distinct (map fst d) \<Longrightarrow> distinct (map fst (dd_add tag c d))"
  by (simp add: dd_add_def distinct_update)

lemma distinct_count_tags: "distinct (map fst d) \<Longrightarrow> distinct (map fst (count_tags ts c d))"
  by (induction ts arbitrary: d) (simp_all add: distinct_dd_add)

lemma distinct_count_group_dict:
  "distinct (map fst d) \<Longrightarrow> distinct (map fst (count_group_dict rules d))"
  by (induction rules arbitrary: d) (simp_all add: distinct_count_tags)

lemma map_of_count_tags:
  "map_of (count_tags ts c d) tag =
     (if tag \<in> set ts then Some (counted d tag + c * int (count_list ts tag)) else map_of d tag)"
proof (induction ts arbitrary: d)
  case Nil
  show ?case by simp
next
  case (Cons x ts)
  show ?case
    by (simp add: Cons.IH map_of_dd_add counted_def algebra_simps)
qed

lemma counted_count_tags:
  "counted (count_tags ts c d) tag = counted d tag + c * int (count_list ts tag)"
  by (simp add: counted_def [of "count_tags ts c d"] map_of_count_tags)
     (simp add: counted_def)

lemma tag_total_absent:
  "tag \<notin> set (concat (map tags rules)) \<Longrightarrow> tag_total rules tag = 0"
  by (induction rules) (simp_all add: tag_total_def)

lemma map_of_count_group_dict:
  "map_of (count_group_dict rules d) tag =
     (if tag \<in> set (concat (map tags rules)) then Some (counted d tag + tag_total rules tag)
      else map_of d tag)"
proof (induction rules arbitrary: d)
  case Nil
  show ?case by (simp add: tag_total_def)
next
  case (Cons r rules)
  have tt: "tag_total (r # rules) tag = count r * int (count_list (tags r) tag) + tag_total rules tag"
    by (simp add: tag_total_def)
  show ?case
    unfolding count_group_dict.simps Cons.IH tt
    using tag_total_absent [of tag rules]
    by (auto simp: counted_count_tags map_of_count_tags)
qed

lemma case_option_ex:
  "(case m of None \<Rightarrow> False | Some es \<Rightarrow> P es) \<longleftrightarrow> (\<exists>es. m = Some es \<and> P es)"
  by (cases m) simp_all

lemma check_counts_iff:
  "check_counts d current n =
     (\<forall>(tag, c)\<in>set d. \<exists>es. map_of current tag = Some es \<and> int (length es) = c * n)"
  by (induction d current n rule: check_counts.induct) (auto split: option.splits)

subsection \<open>The claims about the group functions\<close>

text \<open>
  C1, as the specification states it, fails: a rule with two tags and \<open>count = 1\<close> on a
  pool of two hosts gives both tags the first host and removes one host from the pool, not
  \<open>count \<times> |tags| = 2\<close>.
\<close>

theorem create_groups_consumption_counterexample:
  "create_groups [''h1'', ''h2''] [\<lparr>tags = [''a'', ''b''], count = 1\<rparr>] ''t1'' =
     Inr ([(''a'', [\<lparr>host = ''h1'', target = ''t1''\<rparr>]), (''b'', [\<lparr>host = ''h1'', target = ''t1''\<rparr>])], [''h2''])
   \<and> int (length [''h1'', ''h2'']) - int (length [''h2'']) \<noteq> spec_consumed [\<lparr>tags = [''a'', ''b''], count = 1\<rparr>]"
  by (simp add: create_groups_def py_range_def dd_append_def del_prefix_def spec_consumed_def)

text \<open>
  C1, amended. When no rule has a negative count and \<open>create_groups\<close> returns, the rules
  have been served in declaration order, each from the front of what the rules before it
  left: the pool that remains is the original pool without its first \<open>\<Sum> rule.count\<close>
  hosts; when every rule has a tag, exactly that many hosts have been consumed; every tag
  maps to the slices of the rules that name it, in order, every tag of one rule receiving
  the same slice, and a tag no rule gives a host to is absent; the slices of a pool without
  duplicates share no host, so no host is assigned under two different rules.
\<close>

theorem create_groups_partition:
  assumes nn: "\<forall>r\<in>set rules. 0 \<le> count r"
    and ok: "create_groups pool rules t = Inr (g, rest)"
  shows "rest = drop (nat (sum_list (map count rules))) pool
     \<and> ((\<forall>r\<in>set rules. tags r \<noteq> []) \<longrightarrow>
            int (length pool) - int (length rest) = sum_list (map count rules))
     \<and> (\<forall>tag. map_of g tag =
            (if assigned pool rules t tag = [] then None else Some (assigned pool rules t tag)))
     \<and> (distinct pool \<longrightarrow> distinct (concat (map snd (slices pool rules))))"
proof -
  from ok have loop: "item_loop pool rules t [] = Inr (g, rest)"
    by (simp add: create_groups_def)
  have rest: "rest = drop (nat (sum_list (map count rules))) pool"
    by (rule item_loop_rest [OF nn loop])
  have exact: "int (length pool) - int (length rest) = sum_list (map count rules)"
    if tg: "\<forall>r\<in>set rules. tags r \<noteq> []"
  proof -
    from nn tg have "\<forall>r\<in>set rules. 0 \<le> count r \<and> tags r \<noteq> []" by simp
    from item_loop_enough [OF this loop]
    have le: "sum_list (map count rules) \<le> int (length pool)" .
    have "0 \<le> sum_list (map count rules)" using nn by (auto intro!: sum_list_nonneg)
    with le show ?thesis unfolding rest by simp
  qed
  have ent: "map_of g tag =
      (if assigned pool rules t tag = [] then None else Some (assigned pool rules t tag))" for tag
    using item_loop_entries [OF nn loop, of tag] by (simp add: entries_of_def)
  show ?thesis
    using rest exact ent slices_distinct by blast
qed

text \<open>
  The scenario of the specification: four hosts, \<open>web\<close> with count 2 and \<open>db\<close> with
  count 1.
\<close>

theorem create_groups_partition_witness:
  "list_all (\<lambda>r. 0 \<le> count r) [\<lparr>tags = [''web''], count = 2\<rparr>, \<lparr>tags = [''db''], count = 1\<rparr>]
   \<and> create_groups [''h1'', ''h2'', ''h3'', ''h4'']
        [\<lparr>tags = [''web''], count = 2\<rparr>, \<lparr>tags = [''db''], count = 1\<rparr>] ''t1'' =
      Inr ([(''web'', [\<lparr>host = ''h1'', target = ''t1''\<rparr>, \<lparr>host = ''h2'', target = ''t1''\<rparr>]),
            (''db'', [\<lparr>host = ''h3'', target = ''t1''\<rparr>])], [''h4''])
   \<and> [''h4''] = drop (nat (sum_list (map count [\<lparr>tags = [''web''], count = 2\<rparr>, \<lparr>tags = [''db''], count = 1\<rparr>])))
        [''h1'', ''h2'', ''h3'', ''h4'']"
proof -
  have nn: "\<forall>r\<in>set [\<lparr>tags = [''web''], count = 2\<rparr>, \<lparr>tags = [''db''], count = 1\<rparr>]. 0 \<le> count r"
    by simp
  have ok: "create_groups [''h1'', ''h2'', ''h3'', ''h4'']
        [\<lparr>tags = [''web''], count = 2\<rparr>, \<lparr>tags = [''db''], count = 1\<rparr>] ''t1'' =
      Inr ([(''web'', [\<lparr>host = ''h1'', target = ''t1''\<rparr>, \<lparr>host = ''h2'', target = ''t1''\<rparr>]),
            (''db'', [\<lparr>host = ''h3'', target = ''t1''\<rparr>])], [''h4''])"
    by (simp add: create_groups_def py_range_def dd_append_def del_prefix_def upt_rec)
  from create_groups_partition [OF nn ok] nn ok show ?thesis by simp
qed

text \<open>
  C2 does not hold of the code. \<open>create_groups\<close> gives a tag \<open>count\<close> entries, while
  \<open>check_groups\<close> expects \<open>count \<times> len(host_list)\<close>: on a pool of two hosts and one
  rule with count 1 the freshly created groups are rejected.
\<close>

theorem check_groups_rejects_fresh_groups:
  "create_groups [''h1'', ''h2''] [\<lparr>tags = [''web''], count = 1\<rparr>] ''t1'' =
     Inr ([(''web'', [\<lparr>host = ''h1'', target = ''t1''\<rparr>])], [''h2''])
   \<and> check_groups [(''web'', [\<lparr>host = ''h1'', target = ''t1''\<rparr>])]
        [\<lparr>tags = [''web''], count = 1\<rparr>] [''h1'', ''h2''] = False"
  by (simp add: create_groups_def py_range_def dd_append_def del_prefix_def check_groups_def dd_add_def)

text \<open>
  C4, as the specification states it, fails when a tag occurs in two rules: with two rules
  of count 1 for the tag \<open>a\<close> and one host, \<open>check_groups\<close> accepts two entries for \<open>a\<close>,
  which differs from \<open>rule.count \<times> totalHostCount = 1\<close> for either rule.
\<close>

theorem check_groups_per_rule_counterexample:
  "check_groups [(''a'', [\<lparr>host = ''h1'', target = ''t1''\<rparr>, \<lparr>host = ''h2'', target = ''t1''\<rparr>])]
       [\<lparr>tags = [''a''], count = 1\<rparr>, \<lparr>tags = [''a''], count = 1\<rparr>] [''h1'']
   \<noteq> isValid_spec [(''a'', [\<lparr>host = ''h1'', target = ''t1''\<rparr>, \<lparr>host = ''h2'', target = ''t1''\<rparr>])]
       [\<lparr>tags = [''a''], count = 1\<rparr>, \<lparr>tags = [''a''], count = 1\<rparr>] (length [''h1''])"
  by (simp add: check_groups_def dd_add_def isValid_spec_def)

text \<open>
  C4, amended. \<open>check_groups\<close> returns true exactly when every tag occurring in the rules
  is present in the current assignment with as many entries as the sum of the counts of
  all rules naming the tag (once per occurrence), times the length of the host list; it
  returns false otherwise.
\<close>

theorem check_groups_iff:
  "check_groups current rules host_list =
     list_all (\<lambda>tag. case map_of current tag of
                       None \<Rightarrow> False
                     | Some es \<Rightarrow> int (length es) = tag_total rules tag * int (length host_list))
       (concat (map tags rules))"
proof -
  let ?d = "count_group_dict rules []"
  have dist: "distinct (map fst ?d)"
    by (rule distinct_count_group_dict) simp
  have mem: "(tag, c) \<in> set ?d \<longleftrightarrow> tag \<in> set (concat (map tags rules)) \<and> c = tag_total rules tag" for tag c
  proof -
    have "(tag, c) \<in> set ?d \<longleftrightarrow> map_of ?d tag = Some c"
      using dist by simp
    then show ?thesis
      by (auto simp: map_of_count_group_dict counted_def)
  qed
  have "check_groups current rules host_list \<longleftrightarrow>
      (\<forall>tag c. (tag, c) \<in> set ?d \<longrightarrow>
         (\<exists>es. map_of current tag = Some es \<and> int (length es) = c * int (length host_list)))"
    unfolding check_groups_def Let_def check_counts_iff by auto
  also have "\<dots> \<longleftrightarrow>
      (\<forall>tag\<in>set (concat (map tags rules)).
         \<exists>es. map_of current tag = Some es \<and>
              int (length es) = tag_total rules tag * int (length host_list))"
    unfolding mem by blast
  also have "\<dots> \<longleftrightarrow>
      list_all (\<lambda>tag. case map_of current tag of
                       None \<Rightarrow> False
                     | Some es \<Rightarrow> int (length es) = tag_total rules tag * int (length host_list))
       (concat (map tags rules))"
    unfolding list_all_iff case_option_ex ..
  finally show ?thesis .
qed

text \<open>
  An assignment that \<open>check_groups\<close> accepts: one host, one rule with count 1.
\<close>

theorem check_groups_iff_witness:
  "check_groups [(''web'', [\<lparr>host = ''h1'', target = ''t1''\<rparr>])]
       [\<lparr>tags = [''web''], count = 1\<rparr>] [''h1'']"
  using check_groups_iff [of "[(''web'', [\<lparr>host = ''h1'', target = ''t1''\<rparr>])]"
      "[\<lparr>tags = [''web''], count = 1\<rparr>]" "[''h1'']"]
  by (simp add: tag_total_def)

section \<open>Properties of the Conjur reader\<close>

lemma lower_cp_eq:
  "97 \<le> l \<Longrightarrow> l \<le> 122 \<Longrightarrow> lower_cp c = l \<longleftrightarrow> c = l \<or> c + 32 = l"
  by (auto simp: lower_cp_def)

lemma py_lower_eq:
  "list_all (\<lambda>l. 97 \<le> l \<and> l \<le> 122) w \<Longrightarrow>
     py_lower s = w \<longleftrightarrow> list_all2 (\<lambda>c l. c = l \<or> c + 32 = l) s w"
proof (induction s arbitrary: w)
  case Nil
  show ?case by (auto simp: py_lower_def)
next
  case (Cons c s)
  show ?case
  proof (cases w)
    case Nil
    then show ?thesis by (simp add: py_lower_def)
  next
    case (Cons l w')
    with Cons.prems have l: "97 \<le> l" "l \<le> 122" and w': "list_all (\<lambda>l. 97 \<le> l \<and> l \<le> 122) w'"
      by simp_all
    from Cons.IH [OF w'] lower_cp_eq [OF l, of c] Cons show ?thesis
      by (simp add: py_lower_def)
  qed
qed

lemma lower_false: "py_lower s = lit ''false'' \<longleftrightarrow> ci_equal s ''false''"
  unfolding ci_equal_def by (rule py_lower_eq) (simp add: lit_def)

lemma lower_true: "py_lower s = lit ''true'' \<longleftrightarrow> ci_equal s ''true''"
  unfolding ci_equal_def by (rule py_lower_eq) (simp add: lit_def)

lemma normalize_verify_cases:
  "normalize_verify v =
     (case v of
        PyStr s \<Rightarrow>
          if ci_equal s ''false'' then PyBool False
          else if ci_equal s ''true'' then PyBool True
          else v
      | _ \<Rightarrow> v)"
  by (simp add: normalize_verify_def lower_false lower_true split: pyval.splits)

lemma conjur_loop_agree:
  assumes "\<And>req. verify req = v \<Longrightarrow> http_get w req = http_get w' req"
  shows "conjur_loop w address account token v items acc = conjur_loop w' address account token v items acc"
proof (induction items arbitrary: acc)
  case Nil
  show ?case by simp
next
  case (Cons item items)
  obtain key secret_path where item: "item = (key, secret_path)" by (cases item)
  have "http_get w (conjur_request address account token v path) =
        http_get w' (conjur_request address account token v path)" for path
    by (rule assms) (simp add: conjur_request_def)
  then show ?case
    by (simp add: item Cons.IH split: sum.splits)
qed

lemma conjur_loop_collect:
  "conjur_loop w address account token flag items d =
     collect_values (map (\<lambda>(key, secret_path).
        (key, conjur_value w address account token flag secret_path)) items) d"
proof (induction items arbitrary: d)
  case Nil
  show ?case by simp
next
  case (Cons item items)
  obtain key secret_path where item: "item = (key, secret_path)" by (cases item)
  show ?case
  proof (cases "conjur_path secret_path")
    case (Inl e)
    then show ?thesis by (simp add: item conjur_value_def)
  next
    case path: (Inr path)
    show ?thesis
    proof (cases "http_get w (conjur_request address account token flag path)")
      case (Inl e)
      with path show ?thesis by (simp add: item conjur_value_def conjur_request_def)
    next
      case (Inr r)
      with path show ?thesis by (simp add: item conjur_value_def conjur_request_def Cons.IH)
    qed
  qed
qed

text \<open>
  C8. The flag is normalised before use: a string that equals \<open>false\<close> or \<open>true\<close> without
  regard to case becomes the boolean, and every other value, string or not, stays as it
  is. The normalised flag is what reaches the HTTP layer: once the token is read, the
  reader returns, for every reference in order, the body of the response to the request
  for its variable path with \<open>verify\<close> set to the normalised flag, and raises what the
  first failing reference raises.
\<close>

theorem conjur_verify_normalized:
  "normalize_verify v =
     (case v of
        PyStr s \<Rightarrow>
          if ci_equal s ''false'' then PyBool False
          else if ci_equal s ''true'' then PyBool True
          else v
      | _ \<Rightarrow> v)
   \<and> get_conjur_secrets w service address account token_path v =
     (case load_token w token_path of
        Inl e \<Rightarrow> Inl e
      | Inr token \<Rightarrow>
          (case secrets service of
             Val items \<Rightarrow>
               collect_values (map (\<lambda>(key, secret_path).
                 (key, conjur_value w address account token (normalize_verify v) secret_path)) items) []
           | _ \<Rightarrow> Inl AttributeError))"
  by (simp add: normalize_verify_cases [symmetric] get_conjur_secrets_def secret_items_def
      conjur_loop_collect split: sum.splits attr.splits)

text \<open>
  A world that answers only requests without certificate check: the flag \<open>"False"\<close> is
  sent as the boolean and the secret arrives; the flag \<open>"no"\<close> is sent as it is and the
  request fails.
\<close>

theorem conjur_verify_normalized_witness:
  "normalize_verify (PyStr (lit ''False'')) = PyBool False
   \<and> get_conjur_secrets strict_world (service_with [(''pw'', lit ''!var db/password'')])
        (lit ''https://conjur'') (lit ''acme'') (lit ''/run/token'') (PyStr (lit ''False''))
     = Inr [(''pw'', lit ''s3cret'')]
   \<and> normalize_verify (PyStr (lit ''no'')) = PyStr (lit ''no'')
   \<and> get_conjur_secrets strict_world (service_with [(''pw'', lit ''!var db/password'')])
        (lit ''https://conjur'') (lit ''acme'') (lit ''/run/token'') (PyStr (lit ''no''))
     = Inl (IOError ''certificate verify failed'')"
proof -
  have f: "normalize_verify (PyStr (lit ''False'')) = PyBool False"
    by (simp add: normalize_verify_def py_lower_def lower_cp_def lit_def)
  have n: "normalize_verify (PyStr (lit ''no'')) = PyStr (lit ''no'')"
    by (simp add: normalize_verify_def py_lower_def lower_cp_def lit_def)
  have p: "conjur_path (lit ''!var db/password'') = Inr (lit ''db/password'')"
    by (simp add: conjur_path_def py_split_def second_def lit_def py_strip_def py_rstrip_def
        is_space_def)
  have t: "load_token strict_world (lit ''/run/token'') = Inr (lit ''{}'')"
    by (simp add: strict_world_def open_world_def)
  have s: "secrets (service_with [(''pw'', lit ''!var db/password'')]) = Val [(''pw'', lit ''!var db/password'')]"
    by (simp add: service_with_def)
  have vf: "conjur_value strict_world (lit ''https://conjur'') (lit ''acme'') (lit ''{}'') (PyBool False)
      (lit ''!var db/password'') = Inr (lit ''s3cret'')"
    by (simp add: conjur_value_def p strict_world_def open_world_def)
  have vn: "conjur_value strict_world (lit ''https://conjur'') (lit ''acme'') (lit ''{}'') (PyStr (lit ''no''))
      (lit ''!var db/password'') = Inl (IOError ''certificate verify failed'')"
    by (simp add: conjur_value_def p strict_world_def open_world_def)
  from conjur_verify_normalized [of "PyStr (lit ''False'')" strict_world "service_with [(''pw'', lit ''!var db/password'')]"
      "lit ''https://conjur''" "lit ''acme''" "lit ''/run/token''"]
    conjur_verify_normalized [of "PyStr (lit ''no'')" strict_world "service_with [(''pw'', lit ''!var db/password'')]"
      "lit ''https://conjur''" "lit ''acme''" "lit ''/run/token''"]
  show ?thesis
    by (simp add: f n t s vf vn)
qed

lemma find_sub_None: "find_sub sep s = None \<longleftrightarrow> \<not> sublist sep s"
  by (induction s) (auto simp: sublist_Cons_right)

lemma conjur_path_no_marker:
  "\<not> sublist (lit ''!var'') secret_path \<Longrightarrow> conjur_path secret_path = Inl IndexError"
proof -
  assume "\<not> sublist (lit ''!var'') secret_path"
  then have "find_sub (lit ''!var'') secret_path = None" by (simp add: find_sub_None)
  then have "split_at (lit ''!var'') secret_path = [secret_path]" by simp
  moreover have "lit ''!var'' \<noteq> []" by (simp add: lit_def)
  ultimately show ?thesis
    by (simp add: conjur_path_def py_split_def second_def)
qed

lemma conjur_loop_no_marker:
  "(key, secret_path) \<in> set items \<Longrightarrow> \<not> sublist (lit ''!var'') secret_path \<Longrightarrow>
     isl (conjur_loop w address account token v items acc)"
proof (induction items arbitrary: acc)
  case Nil
  then show ?case by simp
next
  case (Cons item items)
  obtain k p where item: "item = (k, p)" by (cases item)
  show ?case
  proof (cases "(key, secret_path) = item")
    case True
    with item Cons.prems show ?thesis by (simp add: conjur_path_no_marker)
  next
    case False
    with Cons.prems have "(key, secret_path) \<in> set items" by auto
    from Cons.IH [OF this Cons.prems(2)] show ?thesis
      by (simp add: item split: sum.splits)
  qed
qed

text \<open>
  C10. When some reference of the batch does not contain \<open>!var\<close>, the Conjur reader
  raises: its result is an exception and no dictionary. (\<open>split("!var")\<close> then has one
  element and \<open>[1]\<close> is an \<open>IndexError\<close>, unless reading the token or an earlier request
  has raised before.)
\<close>

theorem conjur_missing_marker_raises:
  assumes "secrets service = Val items" and "(key, secret_path) \<in> set items"
    and "\<not> sublist (lit ''!var'') secret_path"
  shows "isl (get_conjur_secrets w service address account token_path v)"
  using assms conjur_loop_no_marker [OF assms(2,3)]
  by (simp add: get_conjur_secrets_def secret_items_def split: sum.splits)

text \<open>
  A batch with the single reference \<open>db/password\<close>.
\<close>

theorem conjur_missing_marker_raises_witness:
  "secrets (service_with [(''pw'', lit ''db/password'')]) = Val [(''pw'', lit ''db/password'')]
   \<and> \<not> sublist (lit ''!var'') (lit ''db/password'')
   \<and> isl (get_conjur_secrets open_world (service_with [(''pw'', lit ''db/password'')])
        (lit ''https://conjur'') (lit ''acme'') (lit ''/run/token'') (PyBool True))"
proof -
  let ?items = "[(''pw'', lit ''db/password'')]"
  have s: "secrets (service_with ?items) = Val ?items" by (simp add: service_with_def)
  have m: "(''pw'', lit ''db/password'') \<in> set ?items" by simp
  have n: "\<not> sublist (lit ''!var'') (lit ''db/password'')"
    unfolding find_sub_None [symmetric] by (simp add: lit_def)
  from conjur_missing_marker_raises [OF s m n] s n show ?thesis by simp
qed

section \<open>Properties of the Base64 reader\<close>

subsection \<open>Decoding an encoding without its padding\<close>

lemma b64_val_char: "n < 64 \<Longrightarrow> b64_val (b64_char n) = Some n"
  by (auto simp: b64_val_def b64_char_def)

lemma b64_char_not_pad: "n < 64 \<Longrightarrow> b64_char n \<noteq> 61"
  by (auto simp: b64_char_def)

lemma b64_char_ascii: "n < 64 \<Longrightarrow> b64_char n < 128"
  by (auto simp: b64_char_def)

lemma sextet1: "(a::nat) < 256 \<Longrightarrow> a div 4 < 64" by simp
lemma sextet2: "(a mod 4) * 16 + b div 16 < 64" if "(b::nat) < 256" for a :: nat
proof -
  have "a mod 4 \<le> 3" by simp
  moreover have "b div 16 \<le> 15" using that by simp
  ultimately show ?thesis by linarith
qed

lemma byte1: "(a div 4 * 4 + ((a mod 4) * 16 + b div 16) div 16) mod 256 = a"
  if "a < 256" "b < 256" for a b :: nat
proof -
  have "b div 16 < 16" using that by simp
  then have "((a mod 4) * 16 + b div 16) div 16 = a mod 4" by simp
  then show ?thesis using that by simp
qed

lemma byte2: "(((a mod 4) * 16 + b div 16) mod 16 * 16 + ((b mod 16) * 4 + c div 64) div 4) mod 256 = b"
  if "b < 256" "c < 256" for a b c :: nat
proof -
  have "b div 16 < 16" using that by simp
  then have 1: "((a mod 4) * 16 + b div 16) mod 16 = b div 16" by simp
  have "c div 64 < 4" using that by simp
  then have 2: "((b mod 16) * 4 + c div 64) div 4 = b mod 16" by simp
  show ?thesis unfolding 1 2 using that by simp
qed

lemma byte3: "(((b mod 16) * 4 + c div 64) mod 4 * 64 + c mod 64) mod 256 = c"
  if "c < 256" for b c :: nat
proof -
  have "c div 64 < 4" using that by simp
  then have 1: "((b mod 16) * 4 + c div 64) mod 4 = c div 64" by simp
  show ?thesis unfolding 1 using that by simp
qed

lemma byte1': "(a div 4 * 4 + ((a mod 4) * 16) div 16) mod 256 = a" if "a < 256" for a :: nat
  using byte1 [of a 0] that by simp

lemma byte2': "(((a mod 4) * 16 + b div 16) mod 16 * 16 + ((b mod 16) * 4) div 4) mod 256 = b"
  if "b < 256" for a b :: nat
  using byte2 [of b 0 a] that by simp

lemma a2b_data:
  "n < 64 \<Longrightarrow> a2b_loop (b64_char n # rest) q l p =
     (if q = 0 then a2b_loop rest 1 n 0
      else if q = 1 then map_sum id ((#) ((l * 4 + n div 16) mod 256)) (a2b_loop rest 2 (n mod 16) 0)
      else if q = 2 then map_sum id ((#) ((l * 16 + n div 4) mod 256)) (a2b_loop rest 3 (n mod 4) 0)
      else map_sum id ((#) ((l * 64 + n) mod 256)) (a2b_loop rest 0 0 0))"
  by (simp add: b64_val_char b64_char_not_pad)

lemma a2b_tail0: "a2b_loop (lit ''==='') 0 0 0 = Inr []"
  by (simp add: lit_def)

lemma a2b_tail2: "a2b_loop (lit ''==='') 2 l 0 = Inr []"
  by (simp add: lit_def)

lemma a2b_tail3: "a2b_loop (lit ''==='') 3 l 0 = Inr []"
  by (simp add: lit_def)

lemma a2b_group1:
  assumes "a < 256"
  shows "a2b_loop (b64_nopad [a] @ lit ''==='') 0 0 0 = Inr [a]"
proof -
  have s1: "a div 4 < 64" using assms by simp
  have s2: "(a mod 4) * 16 < 64" by (simp add: less_le_trans [of "a mod 4 * 16" "4 * 16"])
  have "a2b_loop (b64_nopad [a] @ lit ''==='') 0 0 0 =
      Inr [(a div 4 * 4 + ((a mod 4) * 16) div 16) mod 256]"
    by (simp only: b64_nopad.simps append_Cons append_Nil a2b_data [OF s1] a2b_data [OF s2]
          a2b_tail2 map_sum.simps id_apply) simp
  then show ?thesis by (simp only: byte1' [OF assms])
qed

lemma a2b_group2:
  assumes "a < 256" "b < 256"
  shows "a2b_loop (b64_nopad [a, b] @ lit ''==='') 0 0 0 = Inr [a, b]"
proof -
  have s1: "a div 4 < 64" using assms by simp
  have s2: "(a mod 4) * 16 + b div 16 < 64" by (rule sextet2 [OF assms(2)])
  have s3: "(b mod 16) * 4 < 64" by (simp add: less_le_trans [of "b mod 16 * 4" "16 * 4"])
  have "a2b_loop (b64_nopad [a, b] @ lit ''==='') 0 0 0 =
      Inr [(a div 4 * 4 + ((a mod 4) * 16 + b div 16) div 16) mod 256,
           (((a mod 4) * 16 + b div 16) mod 16 * 16 + ((b mod 16) * 4) div 4) mod 256]"
    by (simp only: b64_nopad.simps append_Cons append_Nil a2b_data [OF s1] a2b_data [OF s2]
          a2b_data [OF s3] a2b_tail3 map_sum.simps id_apply) simp
  then show ?thesis by (simp only: byte1 [OF assms] byte2' [OF assms(2)])
qed

lemma sextet3: "(b mod 16) * 4 + c div 64 < 64" if "(c::nat) < 256" for b :: nat
proof -
  have "b mod 16 \<le> 15" by simp
  moreover have "c div 64 \<le> 3" using that by simp
  ultimately show ?thesis by linarith
qed

lemma a2b_group3:
  assumes "a < 256" "b < 256" "c < 256"
  shows "a2b_loop (b64_nopad (a # b # c # bs) @ lit ''==='') 0 0 0 =
         map_sum id (\<lambda>r. a # b # c # r) (a2b_loop (b64_nopad bs @ lit ''==='') 0 0 0)"
proof -
  have s1: "a div 4 < 64" using assms by simp
  have s2: "(a mod 4) * 16 + b div 16 < 64" by (rule sextet2 [OF assms(2)])
  have s3: "(b mod 16) * 4 + c div 64 < 64" by (rule sextet3 [OF assms(3)])
  have s4: "c mod 64 < 64" by simp
  let ?R = "a2b_loop (b64_nopad bs @ lit ''==='') 0 0 0"
  have "a2b_loop (b64_nopad (a # b # c # bs) @ lit ''==='') 0 0 0 =
      map_sum id ((#) ((a div 4 * 4 + ((a mod 4) * 16 + b div 16) div 16) mod 256))
       (map_sum id ((#) ((((a mod 4) * 16 + b div 16) mod 16 * 16 + ((b mod 16) * 4 + c div 64) div 4) mod 256))
         (map_sum id ((#) ((((b mod 16) * 4 + c div 64) mod 4 * 64 + c mod 64) mod 256)) ?R))"
    by (simp only: b64_nopad.simps append_Cons append_Nil a2b_data [OF s1] a2b_data [OF s2]
          a2b_data [OF s3] a2b_data [OF s4]) simp
  then show ?thesis
    unfolding byte1 [OF assms(1,2)] byte2 [OF assms(2,3)] byte3 [OF assms(3)]
    by (cases ?R) simp_all
qed

lemma a2b_nopad:
  "list_all (\<lambda>b. b < 256) bs \<Longrightarrow> a2b_loop (b64_nopad bs @ lit ''==='') 0 0 0 = Inr bs"
proof (induction bs rule: b64_nopad.induct)
  case 1
  show ?case by (simp add: a2b_tail0)
next
  case (2 a)
  then show ?case by (simp add: a2b_group1 del: b64_nopad.simps)
next
  case (3 a b)
  then show ?case by (simp add: a2b_group2 del: b64_nopad.simps)
next
  case (4 a b c rest)
  then have "a < 256" "b < 256" "c < 256" and r: "list_all (\<lambda>b. b < 256) rest" by simp_all
  from a2b_group3 [OF this(1-3), of rest] "4.IH" [OF r] show ?case by simp
qed

subsection \<open>Taking the padding off\<close>

lemma strip_padding_snoc: "c \<noteq> 61 \<Longrightarrow> strip_padding (xs @ [c]) = xs @ [c]"
  by (simp add: strip_padding_def)

lemma strip_padding_pad: "strip_padding (xs @ [61]) = strip_padding xs"
  by (simp add: strip_padding_def)

lemma strip_padding_append:
  "strip_padding ys \<noteq> [] \<Longrightarrow> strip_padding (xs @ ys) = xs @ strip_padding ys"
  by (auto simp: strip_padding_def dropWhile_append)

lemma b64_nopad_empty: "b64_nopad bs = [] \<longleftrightarrow> bs = []"
  by (cases bs rule: b64_nopad.cases) simp_all

lemma strip_b64encode:
  "list_all (\<lambda>b. b < 256) bs \<Longrightarrow> strip_padding (b64encode bs) = b64_nopad bs"
proof (induction bs rule: b64encode.induct)
  case 1
  show ?case by (simp add: strip_padding_def)
next
  case (2 a)
  have "(a mod 4) * 16 < 64" by (simp add: less_le_trans [of "a mod 4 * 16" "4 * 16"])
  then have "b64_char ((a mod 4) * 16) \<noteq> 61" by (rule b64_char_not_pad)
  then show ?case by (simp add: strip_padding_def)
next
  case (3 a b)
  have "(b mod 16) * 4 < 64" by (simp add: less_le_trans [of "b mod 16 * 4" "16 * 4"])
  then have "b64_char ((b mod 16) * 4) \<noteq> 61" by (rule b64_char_not_pad)
  then show ?case by (simp add: strip_padding_def)
next
  case (4 a b c rest)
  then have r: "list_all (\<lambda>b. b < 256) rest" by simp
  have np: "b64_char (c mod 64) \<noteq> 61" by (rule b64_char_not_pad) simp
  show ?case
  proof (cases "rest = []")
    case True
    with np show ?thesis by (simp add: strip_padding_def)
  next
    case False
    then have "strip_padding (b64encode rest) \<noteq> []"
      by (simp add: "4.IH" [OF r] b64_nopad_empty)
    from strip_padding_append [OF this, of "[b64_char (a div 4), b64_char ((a mod 4) * 16 + b div 16),
      b64_char ((b mod 16) * 4 + c div 64), b64_char (c mod 64)]"] "4.IH" [OF r] show ?thesis by simp
  qed
qed

lemma b64_nopad_ascii:
  "list_all (\<lambda>b. b < 256) bs \<Longrightarrow> list_all (\<lambda>c. c < 128) (b64_nopad bs)"
proof (induction bs rule: b64_nopad.induct)
  case 1
  show ?case by simp
next
  case (2 a)
  then have "a < 256" by simp
  then have "a div 4 < 64" by simp
  moreover have "(a mod 4) * 16 < 64" by (simp add: less_le_trans [of "a mod 4 * 16" "4 * 16"])
  ultimately show ?case by (simp add: b64_char_ascii)
next
  case (3 a b)
  then have "a < 256" "b < 256" by simp_all
  then have "a div 4 < 64" "(a mod 4) * 16 + b div 16 < 64" by (simp_all add: sextet2)
  moreover have "(b mod 16) * 4 < 64" by (simp add: less_le_trans [of "b mod 16 * 4" "16 * 4"])
  ultimately show ?case by (simp add: b64_char_ascii)
next
  case (4 a b c rest)
  then have "a < 256" "b < 256" "c < 256" and r: "list_all (\<lambda>b. b < 256) rest" by simp_all
  then have "a div 4 < 64" "(a mod 4) * 16 + b div 16 < 64" "(b mod 16) * 4 + c div 64 < 64"
    by (simp_all add: sextet2 sextet3)
  moreover have "c mod 64 < 64" by simp
  ultimately show ?case using "4.IH" [OF r] by (simp add: b64_char_ascii)
qed

lemma b64decode_nopad:
  assumes "list_all (\<lambda>b. b < 256) bs"
  shows "b64decode (strip_padding (b64encode bs) @ lit ''==='') = Inr bs"
proof -
  have "list_all (\<lambda>c. c < 128) (b64_nopad bs @ lit ''==='')"
    using b64_nopad_ascii [OF assms] by (simp add: lit_def)
  then show ?thesis
    by (simp add: b64decode_def a2b_base64_def strip_b64encode [OF assms] a2b_nopad [OF assms])
qed

subsection \<open>UTF-8 decoding undoes encoding\<close>

lemma split2: "c = (c div 64) * 64 + c mod 64" for c :: nat
  by simp

lemma split3: "c = (c div 4096) * 4096 + ((c div 64) mod 64) * 64 + c mod 64" for c :: nat
proof -
  have "c div 4096 = c div 64 div 64" by (simp add: div_mult2_eq)
  moreover have "c div 64 = (c div 64 div 64) * 64 + (c div 64) mod 64" by simp
  ultimately have "c div 64 = (c div 4096) * 64 + (c div 64) mod 64" by simp
  then have "(c div 64) * 64 = (c div 4096) * 4096 + ((c div 64) mod 64) * 64" by simp
  with split2 [of c] show ?thesis by linarith
qed

lemma split4:
  "c = (c div 262144) * 262144 + ((c div 4096) mod 64) * 4096 + ((c div 64) mod 64) * 64 + c mod 64"
  for c :: nat
proof -
  have "c div 262144 = c div 4096 div 64" by (simp add: div_mult2_eq)
  moreover have "c div 4096 = (c div 4096 div 64) * 64 + (c div 4096) mod 64" by simp
  ultimately have "c div 4096 = (c div 262144) * 64 + (c div 4096) mod 64" by simp
  then have "(c div 4096) * 4096 = (c div 262144) * 262144 + ((c div 4096) mod 64) * 4096" by simp
  with split3 [of c] show ?thesis by linarith
qed

lemma utf8_cp1: "c < 128 \<Longrightarrow> utf8_decode (utf8_encode_cp c @ rest) = map_sum id ((#) c) (utf8_decode rest)"
  by (simp add: utf8_encode_cp_def)

lemma utf8_cp2:
  assumes "128 \<le> c" "c < 2048"
  shows "utf8_decode (utf8_encode_cp c @ rest) = map_sum id ((#) c) (utf8_decode rest)"
proof -
  define q r where "q = c div 64" and "r = c mod 64"
  have c: "c = q * 64 + r" and r: "r < 64" by (simp_all add: q_def r_def)
  from c r assms have q: "2 \<le> q" "q \<le> 31" by linarith+
  have enc: "utf8_encode_cp c = [192 + q, 128 + r]"
    using assms by (simp add: utf8_encode_cp_def q_def r_def)
  from q r have val: "(192 + q - 192) * 64 + (128 + r - 128) = c" by (simp add: c)
  show ?thesis
    unfolding enc using q r val by (simp add: is_cont_def)
qed

lemma utf8_cp3:
  assumes "2048 \<le> c" "c < 65536" "is_scalar c"
  shows "utf8_decode (utf8_encode_cp c @ rest) = map_sum id ((#) c) (utf8_decode rest)"
proof -
  define q r1 r where "q = c div 4096" and "r1 = (c div 64) mod 64" and "r = c mod 64"
  have c: "c = q * 4096 + r1 * 64 + r" unfolding q_def r1_def r_def by (rule split3)
  have r: "r < 64" "r1 < 64" by (simp_all add: r1_def r_def)
  from c r assms have q: "q \<le> 15" by linarith
  from c r assms have lo: "q = 0 \<Longrightarrow> 32 \<le> r1" by linarith
  from assms have "c < 55296 \<or> 57344 \<le> c" by (simp add: is_scalar_def)
  with c r have hi: "q = 13 \<Longrightarrow> r1 \<le> 31" by linarith
  have enc: "utf8_encode_cp c = [224 + q, 128 + r1, 128 + r]"
    using assms by (simp add: utf8_encode_cp_def q_def r1_def r_def)
  have val: "(224 + q - 224) * 4096 + (128 + r1 - 128) * 64 + (128 + r - 128) = c" by (simp add: c)
  show ?thesis
    unfolding enc using q r lo hi val by (simp add: is_cont_def)
qed

lemma utf8_cp4:
  assumes "65536 \<le> c" "is_scalar c"
  shows "utf8_decode (utf8_encode_cp c @ rest) = map_sum id ((#) c) (utf8_decode rest)"
proof -
  define q r2 r1 r where "q = c div 262144" and "r2 = (c div 4096) mod 64"
    and "r1 = (c div 64) mod 64" and "r = c mod 64"
  have c: "c = q * 262144 + r2 * 4096 + r1 * 64 + r" unfolding q_def r2_def r1_def r_def by (rule split4)
  have r: "r < 64" "r1 < 64" "r2 < 64" by (simp_all add: r2_def r1_def r_def)
  from assms have top: "c < 1114112" by (simp add: is_scalar_def)
  from c r top have q: "q \<le> 4" by linarith
  from c r assms have lo: "q = 0 \<Longrightarrow> 16 \<le> r2" by linarith
  from c r top have hi: "q = 4 \<Longrightarrow> r2 \<le> 15" by linarith
  have enc: "utf8_encode_cp c = [240 + q, 128 + r2, 128 + r1, 128 + r]"
    using assms by (simp add: utf8_encode_cp_def q_def r2_def r1_def r_def)
  have val: "(240 + q - 240) * 262144 + (128 + r2 - 128) * 4096 + (128 + r1 - 128) * 64 + (128 + r - 128) = c"
    by (simp add: c)
  show ?thesis
    unfolding enc using q r lo hi val by (simp add: is_cont_def)
qed

lemma utf8_cp:
  "is_scalar c \<Longrightarrow> utf8_decode (utf8_encode_cp c @ rest) = map_sum id ((#) c) (utf8_decode rest)"
  using utf8_cp1 [of c rest] utf8_cp2 [of c rest] utf8_cp3 [of c rest] utf8_cp4 [of c rest]
  by linarith

subsection \<open>The round trip through \<open>get_base64_secrets\<close>\<close>

lemma utf8_roundtrip:
  "list_all is_scalar s \<Longrightarrow> utf8_decode (concat (map utf8_encode_cp s)) = Inr s"
  by (induction s) (simp_all add: utf8_cp)

lemma utf8_cp_bytes: "is_scalar c \<Longrightarrow> list_all (\<lambda>b. b < 256) (utf8_encode_cp c)"
proof -
  assume "is_scalar c"
  then have "c < 1114112" by (auto simp: is_scalar_def)
  then have "c div 262144 < 5" by simp
  moreover have "c < 65536 \<Longrightarrow> c div 4096 < 16" by simp
  moreover have "c < 2048 \<Longrightarrow> c div 64 < 32" by simp
  moreover have "c mod 64 < 64" "c div 64 mod 64 < 64" "c div 4096 mod 64 < 64" by simp_all
  ultimately show ?thesis
    by (auto simp: utf8_encode_cp_def)
qed

lemma utf8_bytes:
  "list_all is_scalar s \<Longrightarrow> list_all (\<lambda>b. b < 256) (concat (map utf8_encode_cp s))"
  by (induction s) (simp_all add: utf8_cp_bytes)

lemma py_rstrip_id: "s = [] \<or> \<not> is_space (last s) \<Longrightarrow> py_rstrip s = s"
  by (cases s rule: rev_cases) (auto simp: py_rstrip_def)

text \<open>
  C6, as the specification states it, fails for a printable text that ends in a space:
  \<open>"a "\<close> is encoded as \<open>YSA=\<close>, and the reader returns \<open>"a"\<close> for \<open>YSA\<close>, because
  it applies \<open>rstrip()\<close> to the decoded text.
\<close>

theorem base64_trailing_space_counterexample:
  "list_all printable_ascii (lit ''a '')
   \<and> utf8_encode (lit ''a '') = Inr (lit ''a '')
   \<and> strip_padding (b64encode (lit ''a '')) = lit ''YSA''
   \<and> get_base64_secrets (service_with [(''pw'', lit ''YSA'')]) = Inr [(''pw'', lit ''a'')]
   \<and> lit ''a'' \<noteq> lit ''a ''"
  by (simp add: lit_def printable_ascii_def utf8_encode_def is_scalar_def utf8_encode_cp_def
      strip_padding_def b64_char_def get_base64_secrets_def secret_items_def service_with_def
      decode_secret_def b64decode_def a2b_base64_def b64_val_def py_rstrip_def is_space_def)

text \<open>
  C6, amended. For every text \<open>s\<close> that can be encoded as UTF-8: the base64 encoding of
  its bytes, with the padding taken off, is decoded by the reader (which appends \<open>===\<close>
  whatever the length) to \<open>s\<close> without its trailing white space; so to \<open>s\<close> itself when
  \<open>s\<close> is empty or does not end in white space.
\<close>

theorem base64_round_trip:
  assumes "utf8_encode s = Inr bs"
  shows "decode_secret (strip_padding (b64encode bs)) = Inr (py_rstrip s)
       \<and> get_base64_secrets (service_with [(key, strip_padding (b64encode bs))]) = Inr [(key, py_rstrip s)]
       \<and> (s = [] \<or> \<not> is_space (last s) \<longrightarrow> py_rstrip s = s)"
proof -
  from assms have sc: "list_all is_scalar s" and bs: "bs = concat (map utf8_encode_cp s)"
    by (auto simp: utf8_encode_def split: if_splits)
  from utf8_bytes [OF sc] have lt: "list_all (\<lambda>b. b < 256) bs" by (simp add: bs)
  have d: "decode_secret (strip_padding (b64encode bs)) = Inr (py_rstrip s)"
    using utf8_roundtrip [OF sc]
    by (simp add: decode_secret_def b64decode_nopad [OF lt] bs [symmetric])
  show ?thesis
    using d py_rstrip_id [of s]
    by (simp add: get_base64_secrets_def secret_items_def service_with_def)
qed

text \<open>
  The scenario of the specification: \<open>cGFzcw\<close> is resolved to \<open>pass\<close>.
\<close>

theorem base64_round_trip_witness:
  "utf8_encode (lit ''pass'') = Inr (lit ''pass'')
   \<and> strip_padding (b64encode (lit ''pass'')) = lit ''cGFzcw''
   \<and> get_base64_secrets (service_with [(''pw'', lit ''cGFzcw'')]) = Inr [(''pw'', lit ''pass'')]"
proof -
  have e: "utf8_encode (lit ''pass'') = Inr (lit ''pass'')"
    by (simp add: lit_def utf8_encode_def is_scalar_def utf8_encode_cp_def)
  have s: "strip_padding (b64encode (lit ''pass'')) = lit ''cGFzcw''"
    by (simp add: lit_def strip_padding_def b64_char_def)
  have r: "py_rstrip (lit ''pass'') = lit ''pass''"
    by (simp add: lit_def py_rstrip_def is_space_def)
  from base64_round_trip [OF e, of "''pw''"] e s r show ?thesis by simp
qed

section \<open>One bad reference in a batch\<close>

lemma base64_loop_bad:
  "(key, secret) \<in> set items \<Longrightarrow> isl (decode_secret secret) \<Longrightarrow>
     base64_loop items acc = Inl (AnsibleParserError ''Could not decode secret'')"
proof (induction items arbitrary: acc)
  case Nil
  then show ?case by simp
next
  case (Cons item items)
  obtain k s where item: "item = (k, s)" by (cases item)
  show ?case
  proof (cases "decode_secret s")
    case (Inl e)
    then show ?thesis by (simp add: item)
  next
    case (Inr v)
    with Cons.prems item have "(key, secret) \<in> set items" by auto
    from Cons.IH [OF this Cons.prems(2)] Inr show ?thesis by (simp add: item)
  qed
qed

lemma vault_loop_bad:
  "(key, secret) \<in> set items \<Longrightarrow>
   isl (vault_read w address token secret) \<or> vault_read w address token secret = Inr None \<Longrightarrow>
     isl (vault_loop w address token items acc)"
proof (induction items arbitrary: acc)
  case Nil
  then show ?case by simp
next
  case (Cons item items)
  obtain k s where item: "item = (k, s)" by (cases item)
  show ?case
  proof (cases "(key, secret) = item")
    case True
    with item Cons.prems(2) show ?thesis
      by (auto simp: isl_def)
  next
    case False
    with Cons.prems have "(key, secret) \<in> set items" by auto
    from Cons.IH [OF this Cons.prems(2)] show ?thesis
      by (simp add: item split: sum.splits option.splits)
  qed
qed

lemma conjur_loop_bad:
  "(key, secret_path) \<in> set items \<Longrightarrow>
   (\<And>path. conjur_path secret_path = Inr path \<Longrightarrow>
      isl (http_get w (conjur_request address account token v path))) \<Longrightarrow>
     isl (conjur_loop w address account token v items acc)"
proof (induction items arbitrary: acc)
  case Nil
  then show ?case by simp
next
  case (Cons item items)
  obtain k p where item: "item = (k, p)" by (cases item)
  show ?case
  proof (cases "(key, secret_path) = item")
    case True
    with item Cons.prems(2) show ?thesis
      by (auto simp: isl_def split: sum.splits)
  next
    case False
    with Cons.prems have "(key, secret_path) \<in> set items" by auto
    from Cons.IH [OF this Cons.prems(2)] show ?thesis
      by (simp add: item split: sum.splits)
  qed
qed

text \<open>
  C7, as the specification states it, fails for the Conjur reader: when the server answers
  a reference with status 404, \<open>requests.get\<close> returns the response, the reader does not
  look at the status and stores the body as the value of the secret. The batch does not
  fail.
\<close>

theorem conjur_unreadable_counterexample:
  "http_get missing_world (conjur_request (lit ''https://conjur'') (lit ''acme'') (lit ''{}'') (PyBool True)
       (lit ''db/password'')) = Inr \<lparr>status_code = 404, resp_text = lit ''Not Found''\<rparr>
   \<and> get_conjur_secrets missing_world (service_with [(''pw'', lit ''!var db/password'')])
       (lit ''https://conjur'') (lit ''acme'') (lit ''/run/token'') (PyBool True)
     = Inr [(''pw'', lit ''Not Found'')]"
  by (simp add: missing_world_def open_world_def get_conjur_secrets_def secret_items_def
      service_with_def normalize_verify_def conjur_path_def py_split_def second_def lit_def
      py_strip_def py_rstrip_def is_space_def)

text \<open>
  C7, amended. One reference of a batch whose resolution raises makes the reader raise,
  and no dictionary is returned, whatever the other references are:
  \<^item> Base64: a reference that cannot be decoded gives
    \<open>AnsibleParserError("Could not decode secret")\<close>, whatever the cause was;
  \<^item> Vault: a reference whose read raises or finds nothing gives an exception;
  \<^item> Conjur: a reference without \<open>!var\<close>, or whose request raises, gives an exception.
\<close>

theorem secret_readers_all_or_nothing:
  assumes s: "secrets service = Val items" and m: "(key, ref) \<in> set items"
  shows "(isl (decode_secret ref) \<longrightarrow>
            get_base64_secrets service = Inl (AnsibleParserError ''Could not decode secret''))
       \<and> ((\<forall>token. open_readline w token_path = Inr token \<longrightarrow>
              isl (vault_read w address token ref) \<or> vault_read w address token ref = Inr None) \<longrightarrow>
            isl (get_vault_secrets w service address token_path))
       \<and> ((\<forall>token path. load_token w ctoken_path = Inr token \<longrightarrow> conjur_path ref = Inr path \<longrightarrow>
              isl (http_get w (conjur_request caddr account token (normalize_verify v) path))) \<longrightarrow>
            isl (get_conjur_secrets w service caddr account ctoken_path v))"
proof (intro conjI impI)
  assume "isl (decode_secret ref)"
  from base64_loop_bad [OF m this] s
  show "get_base64_secrets service = Inl (AnsibleParserError ''Could not decode secret'')"
    by (simp add: get_base64_secrets_def secret_items_def)
next
  assume bad: "\<forall>token. open_readline w token_path = Inr token \<longrightarrow>
      isl (vault_read w address token ref) \<or> vault_read w address token ref = Inr None"
  show "isl (get_vault_secrets w service address token_path)"
  proof (cases "open_readline w token_path")
    case (Inl e)
    then show ?thesis by (simp add: get_vault_secrets_def)
  next
    case (Inr token)
    with bad have "isl (vault_read w address token ref) \<or> vault_read w address token ref = Inr None"
      by simp
    from vault_loop_bad [OF m this] Inr s show ?thesis
      by (simp add: get_vault_secrets_def secret_items_def)
  qed
next
  assume bad: "\<forall>token path. load_token w ctoken_path = Inr token \<longrightarrow> conjur_path ref = Inr path \<longrightarrow>
      isl (http_get w (conjur_request caddr account token (normalize_verify v) path))"
  show "isl (get_conjur_secrets w service caddr account ctoken_path v)"
  proof (cases "load_token w ctoken_path")
    case (Inl e)
    then show ?thesis by (simp add: get_conjur_secrets_def)
  next
    case (Inr token)
    with bad have "\<And>path. conjur_path ref = Inr path \<Longrightarrow>
        isl (http_get w (conjur_request caddr account token (normalize_verify v) path))"
      by simp
    from conjur_loop_bad [OF m this] Inr s show ?thesis
      by (simp add: get_conjur_secrets_def secret_items_def)
  qed
qed

text \<open>
  The reference \<open>a\<close>: one base64 character, unknown to Vault, and without \<open>!var\<close>.
\<close>

theorem secret_readers_all_or_nothing_witness:
  "get_base64_secrets (service_with [(''pw'', lit ''a'')]) = Inl (AnsibleParserError ''Could not decode secret'')
   \<and> isl (get_vault_secrets open_world (service_with [(''pw'', lit ''a'')]) (lit ''https://vault'') (lit ''/run/token''))
   \<and> isl (get_conjur_secrets open_world (service_with [(''pw'', lit ''a'')])
        (lit ''https://conjur'') (lit ''acme'') (lit ''/run/token'') (PyBool True))"
proof -
  let ?items = "[(''pw'', lit ''a'')]"
  have s: "secrets (service_with ?items) = Val ?items" by (simp add: service_with_def)
  have m: "(''pw'', lit ''a'') \<in> set ?items" by simp
  have b: "isl (decode_secret (lit ''a''))"
    by (simp add: decode_secret_def b64decode_def a2b_base64_def b64_val_def lit_def)
  have v: "\<forall>token. open_readline open_world (lit ''/run/token'') = Inr token \<longrightarrow>
      isl (vault_read open_world (lit ''https://vault'') token (lit ''a'')) \<or>
      vault_read open_world (lit ''https://vault'') token (lit ''a'') = Inr None"
    by (simp add: open_world_def)
  have c: "\<forall>token path. load_token open_world (lit ''/run/token'') = Inr token \<longrightarrow>
      conjur_path (lit ''a'') = Inr path \<longrightarrow>
      isl (http_get open_world (conjur_request (lit ''https://conjur'') (lit ''acme'') token
             (normalize_verify (PyBool True)) path))"
    by (simp add: conjur_path_def py_split_def second_def lit_def)
  from secret_readers_all_or_nothing [OF s m, of open_world "lit ''/run/token''" "lit ''https://vault''" "lit ''/run/token''"
      "lit ''https://conjur''" "lit ''acme''" "PyBool True"] b v c
  show ?thesis by blast
qed

section \<open>Properties of the pass\<close>

subsection \<open>Steps that write nothing\<close>

lemma unwritten_refl: "unwritten st st"
  by (simp add: unwritten_def)

lemma unwritten_trans: "unwritten a b \<Longrightarrow> unwritten b c \<Longrightarrow> unwritten a c"
  by (simp add: unwritten_def)

lemma unwritten_inventory: "unwritten st (st\<lparr>inventory := i\<rparr>)"
  by (simp add: unwritten_def)

lemma attach_secrets_unwritten:
  "attach_secrets w opts sd grp st = (st', x) \<Longrightarrow> unwritten st st'"
  by (auto simp: attach_secrets_def unwritten_def split: if_splits sum.splits)

lemma publish_entries_unwritten:
  "publish_entries w opts sd item es st = (st', x) \<Longrightarrow> unwritten st st'"
proof (induction es arbitrary: st)
  case Nil
  then show ?case by (simp add: unwritten_def)
next
  case (Cons e es)
  let ?st1 = "st\<lparr>inventory := inventory st @ [AddHost (host e) item] @
                  set_variables item (provisioning_parameters sd) ParamValue\<rparr>"
  obtain st2 y where a: "attach_secrets w opts sd item ?st1 = (st2, y)" by (cases "attach_secrets w opts sd item ?st1")
  from attach_secrets_unwritten [OF a] have u: "unwritten st st2"
    by (simp add: unwritten_def)
  show ?case
  proof (cases y)
    case None
    with Cons.prems a have "publish_entries w opts sd item es st2 = (st', x)" by simp
    from unwritten_trans [OF u Cons.IH [OF this]] show ?thesis .
  next
    case (Some z)
    with Cons.prems a u show ?thesis by simp
  qed
qed

lemma publish_groups_unwritten:
  "publish_groups w opts sd g st = (st', x) \<Longrightarrow> unwritten st st'"
proof (induction g arbitrary: st)
  case Nil
  then show ?case by (simp add: unwritten_def)
next
  case (Cons p g)
  obtain item es where p: "p = (item, es)" by (cases p)
  let ?st1 = "st\<lparr>inventory := inventory st @ [AddGroup item]\<rparr>"
  obtain st2 y where a: "publish_entries w opts sd item es ?st1 = (st2, y)"
    by (cases "publish_entries w opts sd item es ?st1")
  from publish_entries_unwritten [OF a] have u: "unwritten st st2"
    by (simp add: unwritten_def)
  show ?case
  proof (cases y)
    case None
    with Cons.prems a p have "publish_groups w opts sd g st2 = (st', x)" by simp
    from unwritten_trans [OF u Cons.IH [OF this]] show ?thesis .
  next
    case (Some z)
    with Cons.prems a p u show ?thesis by simp
  qed
qed

lemma plain_step_unwritten:
  "plain_step w opts service index sd st = (st', x) \<Longrightarrow> unwritten st st'"
  by (auto simp: plain_step_def Let_def unwritten_def split: if_splits dest!: attach_secrets_unwritten)

lemma grouped_step_valid:
  "check_groups (groups (fetched st)) rules hs \<Longrightarrow>
     grouped_step w opts sd rules hs st = publish_groups w opts sd (groups (fetched st)) st"
  by (simp add: grouped_step_def)

lemma check_groups_no_rules: "check_groups g [] hs"
  by (simp add: check_groups_def)

lemma service_step_unwritten:
  assumes "already_valid (groups (fetched st)) sd"
    and "service_step w opts service index sd st = (st', x)"
  shows "unwritten st st'"
proof (cases "hosts sd \<noteq> NoAttr \<and> map_of (provisioning_parameters sd) ''stackl_inventory_groups'' \<noteq> None")
  case False
  with assms(2) have "plain_step w opts service index sd st = (st', x)"
    by (auto simp: service_step_def)
  then show ?thesis by (rule plain_step_unwritten)
next
  case grouped: True
  then obtain v where v: "map_of (provisioning_parameters sd) ''stackl_inventory_groups'' = Some v"
    by auto
  show ?thesis
  proof (cases "hosts sd")
    case NoAttr
    with grouped show ?thesis by simp
  next
    case PyNone
    with assms(2) grouped v have "st' = st"
      by (simp add: service_step_def split: pval.splits)
    then show ?thesis by (simp add: unwritten_def)
  next
    case (Val hs)
    show ?thesis
    proof (cases v)
      case (Rules rules)
      with assms(1) v Val have "check_groups (groups (fetched st)) rules hs"
        by (simp add: already_valid_def)
      with assms(2) v Val Rules have "publish_groups w opts sd (groups (fetched st)) st = (st', x)"
        by (simp add: service_step_def grouped_step_valid)
      then show ?thesis by (rule publish_groups_unwritten)
    next
      case (Other s)
      show ?thesis
      proof (cases "s = []")
        case True
        with assms(2) v Val Other have "publish_groups w opts sd (groups (fetched st)) st = (st', x)"
          by (simp add: service_step_def grouped_step_valid check_groups_no_rules)
        then show ?thesis by (rule publish_groups_unwritten)
      next
        case False
        with assms(2) v Val Other have "st' = st"
          by (simp add: service_step_def)
        then show ?thesis by (simp add: unwritten_def)
      qed
    qed
  qed
qed

lemma definitions_loop_unwritten:
  "list_all (already_valid (groups (fetched st))) sds \<Longrightarrow>
   definitions_loop w opts service index sds st = (st', x) \<Longrightarrow> unwritten st st'"
proof (induction sds arbitrary: st index)
  case Nil
  then show ?case by (simp add: unwritten_def)
next
  case (Cons sd sds)
  obtain st1 y where a: "service_step w opts service index sd st = (st1, y)"
    by (cases "service_step w opts service index sd st")
  from Cons.prems(1) have v: "already_valid (groups (fetched st)) sd" by simp
  from service_step_unwritten [OF v a] have u: "unwritten st st1" .
  show ?case
  proof (cases y)
    case None
    with Cons.prems a have l: "definitions_loop w opts service (Suc index) sds st1 = (st', x)" by simp
    from Cons.prems(1) u have "list_all (already_valid (groups (fetched st1))) sds"
      by (simp add: unwritten_def)
    from unwritten_trans [OF u Cons.IH [OF this l]] show ?thesis .
  next
    case (Some z)
    with Cons.prems a u show ?thesis by simp
  qed
qed

lemma services_loop_unwritten:
  "list_all (\<lambda>(service, si_service). list_all (already_valid (groups (fetched st))) si_service) svs \<Longrightarrow>
   services_loop w opts svs st = (st', x) \<Longrightarrow> unwritten st st'"
proof (induction svs arbitrary: st)
  case Nil
  then show ?case by (simp add: unwritten_def)
next
  case (Cons p svs)
  obtain service sds where p: "p = (service, sds)" by (cases p)
  obtain st1 y where a: "definitions_loop w opts service 0 sds st = (st1, y)"
    by (cases "definitions_loop w opts service 0 sds st")
  from Cons.prems(1) p have v: "list_all (already_valid (groups (fetched st))) sds" by simp
  from definitions_loop_unwritten [OF v a] have u: "unwritten st st1" .
  show ?case
  proof (cases y)
    case None
    with Cons.prems a p have l: "services_loop w opts svs st1 = (st', x)" by simp
    from Cons.prems(1) u
    have "list_all (\<lambda>(service, si_service). list_all (already_valid (groups (fetched st1))) si_service) svs"
      by (simp add: unwritten_def)
    from unwritten_trans [OF u Cons.IH [OF this l]] show ?thesis .
  next
    case (Some z)
    with Cons.prems a p u show ?thesis by simp
  qed
qed

subsection \<open>The claims about the pass\<close>

text \<open>
  C3. When the rules before \<open>r\<close> have been served and left \<open>rest\<close>, and \<open>r\<close> has a
  tag and asks for more hosts than \<open>rest\<close> holds, \<open>create_groups\<close> ends in \<open>exit(1)\<close>,
  whatever rules follow: the result is the exception, and no groups are returned. In
  \<open>parse\<close> the step of the service definition then ends with the state it started from,
  so that no groups are assigned and no update is sent, and \<open>SystemExit\<close> passes the
  \<open>except\<close> clause unwrapped.
\<close>

theorem create_groups_insufficient_hosts:
  assumes pre: "create_groups pool pre (infrastructure_target sd) = Inr (g, rest)"
    and tg: "tags r \<noteq> []"
    and short: "int (length rest) < count r"
  shows "create_groups pool (pre @ r # post) (infrastructure_target sd) = Inl (SystemExit 1)
       \<and> (\<not> check_groups (groups (fetched st)) (pre @ r # post) pool \<longrightarrow>
            grouped_step w opts sd (pre @ r # post) pool st = (st, Some (SystemExit 1)))
       \<and> wrap (SystemExit 1) = SystemExit 1"
proof -
  from short have "\<not> nat (count r) \<le> length rest" by linarith
  with tg have "tag_loop rest (infrastructure_target sd) (count r) (tags r) g = Inl (SystemExit 1)"
    by (simp add: tag_loop_fold)
  with pre have "create_groups pool (pre @ r # post) (infrastructure_target sd) = Inl (SystemExit 1)"
    by (simp add: create_groups_def item_loop_append)
  then show ?thesis
    by (simp add: grouped_step_def wrap_def)
qed

text \<open>
  The scenario of the specification: one host, one rule with count 2.
\<close>

theorem create_groups_insufficient_hosts_witness:
  "create_groups [''h1''] [] (infrastructure_target web_service) = Inr ([], [''h1''])
   \<and> tags \<lparr>tags = [''web''], count = 2\<rparr> \<noteq> []
   \<and> int (length [''h1'']) < count \<lparr>tags = [''web''], count = 2\<rparr>
   \<and> check_groups [] ([] @ \<lparr>tags = [''web''], count = 2\<rparr> # []) [''h1''] = False
   \<and> create_groups [''h1''] ([] @ \<lparr>tags = [''web''], count = 2\<rparr> # []) (infrastructure_target web_service)
       = Inl (SystemExit 1)
   \<and> grouped_step open_world base64_options web_service ([] @ \<lparr>tags = [''web''], count = 2\<rparr> # []) [''h1'']
        \<lparr>remote = web_instance\<lparr>groups := []\<rparr>, fetched = web_instance\<lparr>groups := []\<rparr>, puts = [],
         inventory = []\<rparr>
       = (\<lparr>remote = web_instance\<lparr>groups := []\<rparr>, fetched = web_instance\<lparr>groups := []\<rparr>, puts = [],
          inventory = []\<rparr>, Some (SystemExit 1))"
proof -
  have pre: "create_groups [''h1''] [] (infrastructure_target web_service) = Inr ([], [''h1''])"
    by (simp add: create_groups_def)
  have tg: "tags \<lparr>tags = [''web''], count = 2\<rparr> \<noteq> []" by simp
  have short: "int (length [''h1'']) < count \<lparr>tags = [''web''], count = 2\<rparr>" by simp
  have chk: "check_groups [] ([] @ \<lparr>tags = [''web''], count = 2\<rparr> # []) [''h1''] = False"
    by (simp add: check_groups_def dd_add_def)
  from create_groups_insufficient_hosts [OF pre tg short, of "[]"
      "\<lparr>remote = web_instance\<lparr>groups := []\<rparr>, fetched = web_instance\<lparr>groups := []\<rparr>, puts = [], inventory = []\<rparr>"
      open_world base64_options] pre tg short chk
  show ?thesis by simp
qed

text \<open>
  C5. When \<open>check_groups\<close> accepts the stored groups for every service definition with
  inventory groups, a pass sends no update and leaves the stored instance as it was; a
  second pass, which starts from what the first has left on the server, therefore makes
  the same calls on the inventory and ends the same way.
\<close>

theorem valid_instance_no_write:
  assumes "instance_valid stored"
  shows "puts (fst (parse w opts stored)) = []
       \<and> remote (fst (parse w opts stored)) = stored
       \<and> parse w opts (remote (fst (parse w opts stored))) = parse w opts stored"
proof -
  let ?st0 = "\<lparr>remote = stored, fetched = stored, puts = [], inventory = []\<rparr>"
  obtain st x where l: "services_loop w opts (services stored) ?st0 = (st, x)"
    by (cases "services_loop w opts (services stored) ?st0")
  from assms have "list_all (\<lambda>(service, si_service).
      list_all (already_valid (groups (fetched ?st0))) si_service) (services stored)"
    by (simp add: instance_valid_def)
  from services_loop_unwritten [OF this l] have "unwritten ?st0 st" .
  with l show ?thesis
    by (simp add: parse_def unwritten_def)
qed

text \<open>
  An instance whose group \<open>web\<close> holds the one host that its rule asks for.
\<close>

theorem valid_instance_no_write_witness:
  "instance_valid web_instance
   \<and> parse open_world base64_options web_instance =
      (\<lparr>remote = web_instance, fetched = web_instance, puts = [],
        inventory = [AddGroup ''web'', AddHost ''h1'' ''web'',
          SetVariable ''web'' ''stackl_inventory_groups''
            (ParamValue (Rules [\<lparr>tags = [''web''], count = 1\<rparr>]))]\<rparr>, None)
   \<and> parse open_world base64_options (remote (fst (parse open_world base64_options web_instance))) =
      parse open_world base64_options web_instance"
proof -
  have v: "instance_valid web_instance"
    by (simp add: instance_valid_def web_instance_def web_service_def already_valid_def
        check_groups_def dd_add_def)
  have p: "parse open_world base64_options web_instance =
      (\<lparr>remote = web_instance, fetched = web_instance, puts = [],
        inventory = [AddGroup ''web'', AddHost ''h1'' ''web'',
          SetVariable ''web'' ''stackl_inventory_groups''
            (ParamValue (Rules [\<lparr>tags = [''web''], count = 1\<rparr>]))]\<rparr>, None)"
    by (simp add: parse_def web_instance_def web_service_def service_step_def grouped_step_def
        check_groups_def dd_add_def attach_secrets_def set_variables_def)
  from valid_instance_no_write [OF v, of open_world base64_options] v p show ?thesis by simp
qed

text \<open>
  C9. A service definition without the parameter \<open>stackl_inventory_groups\<close> (whose
  attribute \<open>hosts\<close> exists, holding a list or \<open>None\<close>) takes the second branch: nothing is
  checked, created or sent, and the calls on the inventory are the group named after the
  service, its declared hosts or else the one host \<open>service_index\<close>, and the variables of
  the group: the infrastructure target, the provisioning parameters and, when the service
  has secrets and they resolve, the resolved secrets.
\<close>

theorem plain_service_publication:
  assumes nokey: "map_of (provisioning_parameters sd) ''stackl_inventory_groups'' = None"
    and attr: "hosts sd \<noteq> NoAttr"
    and sec: "secrets sd = NoAttr \<and> resolved = [] \<or>
              secrets sd \<noteq> NoAttr \<and> resolve_secrets w opts sd = Inr resolved"
  shows "service_step w opts service index sd st =
           (st\<lparr>inventory := inventory st @ plain_publication service index sd resolved\<rparr>, None)"
proof -
  have h: "plain_hosts service index sd =
      (if declared_hosts sd = [] then [AddHost (service @ ''_'' @ str_nat index) service]
       else map (\<lambda>h. AddHost h service) (declared_hosts sd))"
    by (simp add: plain_hosts_def declared_hosts_def split: attr.splits list.splits)
  let ?calls = "[AddGroup service] @ plain_hosts service index sd @
      [SetVariable service ''infrastructure_target'' (TargetValue (infrastructure_target sd))] @
      set_variables service (provisioning_parameters sd) ParamValue"
  have pub: "plain_publication service index sd resolved = ?calls @ set_variables service resolved SecretValue"
    unfolding plain_publication_def h set_variables_def by simp
  have step: "service_step w opts service index sd st =
      attach_secrets w opts sd service (st\<lparr>inventory := inventory st @ ?calls\<rparr>)"
    using nokey attr by (simp add: service_step_def plain_step_def Let_def)
  from sec show ?thesis
  proof
    assume "secrets sd = NoAttr \<and> resolved = []"
    then show ?thesis
      unfolding step pub by (simp add: attach_secrets_def set_variables_def)
  next
    assume "secrets sd \<noteq> NoAttr \<and> resolve_secrets w opts sd = Inr resolved"
    then show ?thesis
      unfolding step pub by (simp add: attach_secrets_def)
  qed
qed

text \<open>
  A service \<open>db\<close> without hosts, with one parameter and one Base64 secret.
\<close>

theorem plain_service_publication_witness:
  "map_of (provisioning_parameters plain_service) ''stackl_inventory_groups'' = None
   \<and> hosts plain_service \<noteq> NoAttr
   \<and> resolve_secrets open_world base64_options plain_service = Inr [(''pw'', lit ''pass'')]
   \<and> service_step open_world base64_options ''db'' 0 plain_service
        \<lparr>remote = web_instance, fetched = web_instance, puts = [], inventory = []\<rparr> =
      (\<lparr>remote = web_instance, fetched = web_instance, puts = [],
        inventory = [AddGroup ''db'', AddHost ''db_0'' ''db'',
          SetVariable ''db'' ''infrastructure_target'' (TargetValue ''t1''),
          SetVariable ''db'' ''port'' (ParamValue (Other (lit ''80''))),
          SetVariable ''db'' ''pw'' (SecretValue (lit ''pass''))]\<rparr>, None)"
proof -
  have k: "map_of (provisioning_parameters plain_service) ''stackl_inventory_groups'' = None"
    by (simp add: plain_service_def)
  have a: "hosts plain_service \<noteq> NoAttr" by (simp add: plain_service_def)
  have r: "resolve_secrets open_world base64_options plain_service = Inr [(''pw'', lit ''pass'')]"
    by (simp add: resolve_secrets_def base64_options_def plain_service_def get_base64_secrets_def
        secret_items_def decode_secret_def b64decode_def a2b_base64_def b64_val_def lit_def
        py_rstrip_def is_space_def is_cont_def)
  have s: "secrets plain_service = NoAttr \<and> [(''pw'', lit ''pass'')] = [] \<or>
      secrets plain_service \<noteq> NoAttr \<and>
      resolve_secrets open_world base64_options plain_service = Inr [(''pw'', lit ''pass'')]"
    using r by (simp add: plain_service_def)
  from plain_service_publication [OF k a s, of "''db''" 0 "\<lparr>remote = web_instance, fetched = web_instance, puts = [], inventory = []\<rparr>"]
    k a r
  show ?thesis
    by (simp add: plain_publication_def declared_hosts_def plain_service_def str_nat.simps)
qed

end
